theory Spec2Isabelle
  imports Main
begin

section \<open>Data model\<close>

text \<open>
  Python strings are sequences of Unicode code points, so a string is a list of code
  point numbers. \<open>asc\<close> turns an ASCII literal into such a list.
\<close>

type_synonym cp = nat
type_synonym pystr = "cp list"

definition asc :: "string \<Rightarrow> pystr" where
  "asc s = map of_char s"

text \<open>
  The values a field of a stored record or an argument can hold: the code compares
  them with Python's \<open>==\<close>, under which an \<open>int\<close> never equals a \<open>str\<close>.
\<close>

datatype pyval = PInt int | PStr pystr

text \<open>
  The exceptions of \<open>main.py\<close>. The \<open>ValueError\<close>s are told apart by their message;
  \<open>Unpack\<close> is the \<open>ValueError\<close> of a tuple assignment with the wrong number of
  values. \<open>IndexError\<close> is Python's own.
\<close>

datatype vmsg = BadTitle | YearNotInt | YearOutOfRange | BadAuthor | Unpack

datatype error =
    ValueError vmsg
  | NotFoundInTheLibrary
  | IncorrectSearchFields
  | AlreadyInTheLibrary
  | IndexError

text \<open>
  A stored book is the dictionary \<open>Book.to_dict\<close> builds: the keys \<open>id\<close>, \<open>title\<close>,
  \<open>author\<close>, \<open>year\<close>, \<open>status\<close>. The catalog \<open>Library.books_data\<close> is the list of them.
\<close>

record book =
  book_id :: int
  title :: pystr
  author :: pystr
  year :: int
  status :: pystr

text \<open>The two status labels: U+0412 U+0020 U+043D U+0430 U+043B U+0438 U+0447 U+0438 U+0438
  ("in stock") and U+0412 U+044B U+0434 U+0430 U+043D U+0430 ("checked out").\<close>

definition AVAILABLE :: pystr where
  "AVAILABLE = [1042, 32, 1085, 1072, 1083, 1080, 1095, 1080, 1080]"

definition CHECKED_OUT :: pystr where
  "CHECKED_OUT = [1042, 1099, 1076, 1072, 1085, 1072]"

text \<open>
  Where an index lands in a list of \<open>len\<close> elements: Python counts a negative index
  from the end, and an index outside \<open>-len .. len - 1\<close> raises \<open>IndexError\<close>.
\<close>

definition py_position :: "nat \<Rightarrow> int \<Rightarrow> nat option" where
  "py_position len i =
     (if i < - int len \<or> int len \<le> i then None
      else if i < 0 then Some (nat (int len + i))
      else Some (nat i))"

text \<open>\<open>xs[i]\<close>, \<open>xs.pop(i)\<close> (giving the list that is left) and \<open>xs[i] = v\<close>.\<close>

definition py_index :: "'a list \<Rightarrow> int \<Rightarrow> error + 'a" where
  "py_index xs i =
     (case py_position (length xs) i of
        None \<Rightarrow> Inl IndexError
      | Some j \<Rightarrow> Inr (xs ! j))"

definition py_pop :: "'a list \<Rightarrow> int \<Rightarrow> error + 'a list" where
  "py_pop xs i =
     (case py_position (length xs) i of
        None \<Rightarrow> Inl IndexError
      | Some j \<Rightarrow> Inr (take j xs @ drop (Suc j) xs))"

definition py_setitem :: "'a list \<Rightarrow> int \<Rightarrow> 'a \<Rightarrow> error + 'a list" where
  "py_setitem xs i v =
     (case py_position (length xs) i of
        None \<Rightarrow> Inl IndexError
      | Some j \<Rightarrow> Inr (xs[j := v]))"

section \<open>Python strings\<close>

text \<open>
  The character tables below are those of CPython for the code points the validators
  admit: Basic Latin, the Cyrillic letters U+0410..U+044F with U+0401 and U+0451, and
  Unicode white space. \<open>is_space\<close> is \<open>str.isspace\<close> on one character, which is also the
  class \<open>\s\<close> of \<open>re\<close> on \<open>str\<close> patterns. \<open>is_decimal\<close> is the class \<open>\d\<close> on ASCII;
  the decimal digits of other scripts and the cased letters of other scripts are
  outside the tables.
\<close>

definition is_space :: "cp \<Rightarrow> bool" where
  "is_space c \<longleftrightarrow>
     (9 \<le> c \<and> c \<le> 13) \<or> (28 \<le> c \<and> c \<le> 32) \<or> c = 133 \<or> c = 160 \<or> c = 5760 \<or>
     (8192 \<le> c \<and> c \<le> 8202) \<or> c = 8232 \<or> c = 8233 \<or> c = 8239 \<or> c = 8287 \<or> c = 12288"

definition is_decimal :: "cp \<Rightarrow> bool" where
  "is_decimal c \<longleftrightarrow> 48 \<le> c \<and> c \<le> 57"

definition is_upper :: "cp \<Rightarrow> bool" where
  "is_upper c \<longleftrightarrow> (65 \<le> c \<and> c \<le> 90) \<or> (1040 \<le> c \<and> c \<le> 1071) \<or> c = 1025"

definition is_lower :: "cp \<Rightarrow> bool" where
  "is_lower c \<longleftrightarrow> (97 \<le> c \<and> c \<le> 122) \<or> (1072 \<le> c \<and> c \<le> 1103) \<or> c = 1105"

definition is_cased :: "cp \<Rightarrow> bool" where
  "is_cased c \<longleftrightarrow> is_upper c \<or> is_lower c"

definition to_lower :: "cp \<Rightarrow> cp" where
  "to_lower c =
     (if (65 \<le> c \<and> c \<le> 90) \<or> (1040 \<le> c \<and> c \<le> 1071) then c + 32
      else if c = 1025 then 1105 else c)"

definition to_title :: "cp \<Rightarrow> cp" where
  "to_title c =
     (if (97 \<le> c \<and> c \<le> 122) \<or> (1072 \<le> c \<and> c \<le> 1103) then c - 32
      else if c = 1105 then 1025 else c)"

text \<open>
  \<open>str.title()\<close>: a character that follows a cased character is lower-cased, any other
  character is title-cased.
\<close>

fun title_from :: "bool \<Rightarrow> pystr \<Rightarrow> pystr" where
  "title_from previous_is_cased [] = []"
| "title_from previous_is_cased (c # cs) =
     (if previous_is_cased then to_lower c else to_title c) # title_from (is_cased c) cs"

definition py_title :: "pystr \<Rightarrow> pystr" where
  "py_title s = title_from False s"

definition py_lower :: "pystr \<Rightarrow> pystr" where
  "py_lower s = map to_lower s"

definition py_lstrip :: "pystr \<Rightarrow> pystr" where
  "py_lstrip s = dropWhile is_space s"

definition py_rstrip :: "pystr \<Rightarrow> pystr" where
  "py_rstrip s = rev (dropWhile is_space (rev s))"

definition py_strip :: "pystr \<Rightarrow> pystr" where
  "py_strip s = py_rstrip (py_lstrip s)"

text \<open>
  \<open>s.split(sep)\<close> for a non-empty separator: the pieces between the leftmost
  non-overlapping occurrences of \<open>sep\<close>. \<open>acc\<close> is the piece being read.
\<close>

function py_split_from :: "pystr \<Rightarrow> pystr \<Rightarrow> pystr \<Rightarrow> pystr list" where
  "py_split_from sep acc [] = [acc]"
| "py_split_from sep acc (c # cs) =
     (if sep \<noteq> [] \<and> take (length sep) (c # cs) = sep
      then acc # py_split_from sep [] (drop (length sep) (c # cs))
      else py_split_from sep (acc @ [c]) cs)"
  by pat_completeness auto
termination
  by (relation "measure (\<lambda>(sep, acc, s). length s)") auto

definition py_split :: "pystr \<Rightarrow> pystr \<Rightarrow> pystr list" where
  "py_split sep s = py_split_from sep [] s"

text \<open>
  \<open>int(x)\<close> on an \<open>int\<close> and on a \<open>str\<close>, \<open>None\<close> for the \<open>ValueError\<close>: surrounding
  white space, an optional sign, decimal digits with single underscores between them.
  The white space \<open>int()\<close> skips is that of \<open>str.isspace\<close> without the four separators
  U+001C..U+001F. The decimal digits of other scripts, which \<open>int()\<close> converts, and its
  limit on the number of digits are outside the model.
\<close>

definition is_int_space :: "cp \<Rightarrow> bool" where
  "is_int_space c \<longleftrightarrow> is_space c \<and> \<not> (28 \<le> c \<and> c \<le> 31)"

definition int_strip :: "pystr \<Rightarrow> pystr" where
  "int_strip s = rev (dropWhile is_int_space (rev (dropWhile is_int_space s)))"

fun digits_value :: "int \<Rightarrow> pystr \<Rightarrow> int option" where
  "digits_value acc [] = Some acc"
| "digits_value acc [c] = (if is_decimal c then Some (acc * 10 + int (c - 48)) else None)"
| "digits_value acc (c # d # cs) =
     (if is_decimal c then digits_value (acc * 10 + int (c - 48)) (d # cs)
      else if c = 95 \<and> is_decimal d then digits_value (acc * 10 + int (d - 48)) cs
      else None)"

definition unsigned_value :: "pystr \<Rightarrow> int option" where
  "unsigned_value s =
     (case s of [] \<Rightarrow> None
      | c # cs \<Rightarrow> if is_decimal c then digits_value (int (c - 48)) cs else None)"

definition int_of_str :: "pystr \<Rightarrow> int option" where
  "int_of_str s =
     (case int_strip s of
        [] \<Rightarrow> None
      | c # cs \<Rightarrow>
          if c = 45 then map_option uminus (unsigned_value cs)
          else if c = 43 then unsigned_value cs
          else unsigned_value (c # cs))"

fun py_int :: "pyval \<Rightarrow> int option" where
  "py_int (PInt n) = Some n"
| "py_int (PStr s) = int_of_str s"

section \<open>Regular expressions\<close>

text \<open>
  The fragment of \<open>re\<close> that the validators use. A character class is a list of items;
  the repetition operators are greedy. \<open>Bol\<close> is \<open>^\<close> and \<open>Eol\<close> is \<open>$\<close>, which without
  \<open>re.MULTILINE\<close> holds at the end of the string and just before a newline that ends it.
\<close>

datatype item = Range cp cp | Chr cp | Whitespace | Decimal

fun in_item :: "item \<Rightarrow> cp \<Rightarrow> bool" where
  "in_item (Range a b) c = (a \<le> c \<and> c \<le> b)"
| "in_item (Chr a) c = (c = a)"
| "in_item Whitespace c = is_space c"
| "in_item Decimal c = is_decimal c"

definition in_class :: "item list \<Rightarrow> cp \<Rightarrow> bool" where
  "in_class items c = list_ex (\<lambda>i. in_item i c) items"

datatype regex =
    Eps
  | Bol
  | Eol
  | Cls "item list"
  | Seq regex regex
  | Alt regex regex
  | Star regex

text \<open>
  \<open>ends n r s\<close> lists, in the order in which the backtracking matcher of \<open>re\<close> tries
  them, what can be left of \<open>s\<close> after \<open>r\<close> has matched a prefix of it; \<open>n\<close> is the length
  of the whole subject, so that the position of \<open>s\<close> in it is \<open>n - length s\<close>. An
  iteration of a star that consumes nothing is not repeated.
\<close>

fun ends :: "nat \<Rightarrow> regex \<Rightarrow> pystr \<Rightarrow> pystr list" where
  "ends n Eps s = [s]"
| "ends n Bol s = (if length s = n then [s] else [])"
| "ends n Eol s = (if s = [] \<or> s = [10] then [s] else [])"
| "ends n (Cls items) s =
     (case s of [] \<Rightarrow> [] | c # cs \<Rightarrow> if in_class items c then [cs] else [])"
| "ends n (Seq r1 r2) s = concat (map (ends n r2) (ends n r1 s))"
| "ends n (Alt r1 r2) s = ends n r1 s @ ends n r2 s"
| "ends n (Star r) s =
     concat (map (\<lambda>s'. if length s' < length s then ends n (Star r) s' else []) (ends n r s))
     @ [s]"

text \<open>
  \<open>re.search(r, s)\<close>: the first position from which \<open>r\<close> matches, and there the first
  match in the matcher's order. The result is \<open>match.group(0)\<close>.
\<close>

fun search_from :: "regex \<Rightarrow> nat \<Rightarrow> pystr \<Rightarrow> pystr option" where
  "search_from r n s =
     (case ends n r s of
        rest # _ \<Rightarrow> Some (take (length s - length rest) s)
      | [] \<Rightarrow> (case s of [] \<Rightarrow> None | _ # cs \<Rightarrow> search_from r n cs))"

definition re_search :: "regex \<Rightarrow> pystr \<Rightarrow> pystr option" where
  "re_search r s = search_from r (length s) s"

text \<open>\<open>r{k}\<close>, \<open>r{k,}\<close>, \<open>r{k,k+m}\<close> and \<open>r+\<close>.\<close>

fun rep_exact :: "nat \<Rightarrow> regex \<Rightarrow> regex" where
  "rep_exact 0 r = Eps"
| "rep_exact (Suc k) r = Seq r (rep_exact k r)"

fun rep_min :: "nat \<Rightarrow> regex \<Rightarrow> regex" where
  "rep_min 0 r = Star r"
| "rep_min (Suc k) r = Seq r (rep_min k r)"

fun rep_upto :: "nat \<Rightarrow> regex \<Rightarrow> regex" where
  "rep_upto 0 r = Eps"
| "rep_upto (Suc m) r = Alt (Seq r (rep_upto m r)) Eps"

definition rep_range :: "nat \<Rightarrow> nat \<Rightarrow> regex \<Rightarrow> regex" where
  "rep_range k l r = Seq (rep_exact k r) (rep_upto (l - k) r)"

definition rep_plus :: "regex \<Rightarrow> regex" where
  "rep_plus r = Seq r (Star r)"

section \<open>The validators of \<open>Book\<close>\<close>

text \<open>The class \<open>[A-Za-z\<close>U+0410\<open>-\<close>U+042F U+0430\<open>-\<close>U+044F U+0401 U+0451\<open>]\<close>.\<close>

definition LETTERS :: "item list" where
  "LETTERS = [Range 65 90, Range 97 122, Range 1040 1071, Range 1072 1103, Chr 1025, Chr 1105]"

text \<open>The punctuation \<open>\s\.,;:!?()\'\"\-\<close> of the two title classes.\<close>

definition TITLE_PUNCT :: "item list" where
  "TITLE_PUNCT =
     [Whitespace, Chr 46, Chr 44, Chr 59, Chr 58, Chr 33, Chr 63, Chr 40, Chr 41,
      Chr 39, Chr 34, Chr 45]"

text \<open>
  The three alternatives of the title pattern: two letters and then letters, ASCII
  digits, white space and punctuation; one to four digits and then at least one letter,
  white space or punctuation character; exactly four digits.
\<close>

definition title_regex :: regex where
  "title_regex =
     Alt (Seq Bol (Seq (rep_exact 2 (Cls LETTERS))
            (Seq (Star (Cls (LETTERS @ [Range 48 57] @ TITLE_PUNCT))) Eol)))
      (Alt (Seq Bol (Seq (rep_range 1 4 (Cls [Decimal]))
              (Seq (rep_plus (Cls (LETTERS @ TITLE_PUNCT))) Eol)))
           (Seq Bol (Seq (rep_exact 4 (Cls [Decimal])) Eol)))"

definition validate_title :: "pystr \<Rightarrow> error + pystr" where
  "validate_title t =
     (case re_search title_regex t of
        Some g \<Rightarrow> if g = t then Inr (py_title (py_strip t)) else Inl (ValueError BadTitle)
      | None \<Rightarrow> Inl (ValueError BadTitle))"

text \<open>\<open>today_year\<close> stands for \<open>date.today().year\<close>.\<close>

definition validate_year :: "int \<Rightarrow> pyval \<Rightarrow> error + int" where
  "validate_year today_year y =
     (case py_int y of
        None \<Rightarrow> Inl (ValueError YearNotInt)
      | Some n \<Rightarrow>
          if n \<le> 0 \<or> n > today_year then Inl (ValueError YearOutOfRange) else Inr n)"

text \<open>
  The two alternatives of the author pattern: at least two letters and then one or more
  groups of one separator (apostrophe, hyphen or white space) and at least one letter;
  at least five letters.
\<close>

definition AUTHOR_SEP :: "item list" where
  "AUTHOR_SEP = [Chr 39, Chr 45, Whitespace]"

definition author_regex :: regex where
  "author_regex =
     Alt (Seq Bol (Seq (rep_min 2 (Cls LETTERS))
            (Seq (rep_plus (Seq (Cls AUTHOR_SEP) (rep_plus (Cls LETTERS)))) Eol)))
         (Seq Bol (Seq (rep_min 5 (Cls LETTERS)) Eol))"

definition validate_author :: "pystr \<Rightarrow> error + pystr" where
  "validate_author a =
     (case re_search author_regex a of
        Some g \<Rightarrow> if g = a then Inr (py_title (py_strip a)) else Inl (ValueError BadAuthor)
      | None \<Rightarrow> Inl (ValueError BadAuthor))"

text \<open>
  \<open>Book.__init__\<close> followed by \<open>to_dict\<close>: the validators run in the order title, author,
  year, and the first failure is the result.
\<close>

definition Book :: "int \<Rightarrow> int \<Rightarrow> pystr \<Rightarrow> pystr \<Rightarrow> pyval \<Rightarrow> error + book" where
  "Book today_year last_added_book_id t a y =
     (case validate_title t of
        Inl e \<Rightarrow> Inl e
      | Inr t' \<Rightarrow>
          (case validate_author a of
             Inl e \<Rightarrow> Inl e
           | Inr a' \<Rightarrow>
               (case validate_year today_year y of
                  Inl e \<Rightarrow> Inl e
                | Inr y' \<Rightarrow>
                    Inr \<lparr>book_id = last_added_book_id + 1, title = t', author = a',
                         year = y', status = AVAILABLE\<rparr>)))"

section \<open>Lookup by identifier\<close>

text \<open>
  The \<open>while\<close> loop of \<open>LibraryManager._find_book_in_the_library\<close>, on the two bounds.
  With \<open>return_index\<close> the position is returned; without it the walrus-bound
  \<open>target_book\<close>, which is the identifier read at \<open>mid\<close>. The sentinel is \<open>-1\<close>.
\<close>

function find_loop :: "book list \<Rightarrow> int \<Rightarrow> bool \<Rightarrow> int \<Rightarrow> int \<Rightarrow> error + int" where
  "find_loop books_data bid return_index low_bound high_bound =
     (if low_bound \<le> high_bound then
        (let mid = (low_bound + high_bound) div 2 in
         case py_index books_data mid of
           Inl e \<Rightarrow> Inl e
         | Inr b \<Rightarrow>
             if book_id b = bid then (if return_index then Inr mid else Inr (book_id b))
             else if book_id b > bid
               then find_loop books_data bid return_index low_bound (mid - 1)
               else find_loop books_data bid return_index (mid + 1) high_bound)
      else Inr (- 1))"
  by pat_completeness auto
termination
  by (relation "measure (\<lambda>(bs, k, r, lo, hi). nat (hi - lo + 1))") auto

definition find_book_in_the_library :: "book list \<Rightarrow> int \<Rightarrow> bool \<Rightarrow> error + int" where
  "find_book_in_the_library books_data bid return_index =
     find_loop books_data bid return_index 0 (int (length books_data) - 1)"

text \<open>The catalog invariant of the data model: identifiers strictly ascending.\<close>

definition ids_ascending :: "book list \<Rightarrow> bool" where
  "ids_ascending bs = sorted_wrt (<) (map book_id bs)"

section \<open>The operations of \<open>LibraryManager\<close>\<close>

text \<open>
  An operation takes the catalog and gives the catalog it leaves, or the exception it
  raises. Every \<open>raise\<close> of the source comes before the one statement that changes
  \<open>books_data\<close>, so an exception leaves the catalog as it was.
\<close>

text \<open>\<open>book.get(key)\<close> on a stored book.\<close>

definition book_get :: "book \<Rightarrow> pystr \<Rightarrow> pyval option" where
  "book_get b key =
     (if key = asc ''id'' then Some (PInt (book_id b))
      else if key = asc ''title'' then Some (PStr (title b))
      else if key = asc ''author'' then Some (PStr (author b))
      else if key = asc ''year'' then Some (PInt (year b))
      else if key = asc ''status'' then Some (PStr (status b))
      else None)"

text \<open>
  \<open>_search_books_by\<close>. The result \<open>Inr rs\<close> is the list the function returns when
  \<open>return_book_obj\<close> is set, and the rows it prints when it is not.
\<close>

definition search_books_by :: "book list \<Rightarrow> pystr \<Rightarrow> bool \<Rightarrow> error + book list" where
  "search_books_by books_data search_query return_book_obj =
     (case py_split (asc '' = '') search_query of
        [field0, value0] \<Rightarrow>
          (let search_field = py_strip (py_lower field0);
               search_value = py_strip (py_title value0)
           in if search_field \<notin> {asc ''title'', asc ''author'', asc ''year''}
              then Inl IncorrectSearchFields
              else
                (let search_results =
                       filter (\<lambda>b. book_get b search_field = Some (PStr search_value)) books_data
                 in if search_results \<noteq> [] then Inr search_results
                    else if return_book_obj then Inr []
                    else Inl NotFoundInTheLibrary))
      | _ \<Rightarrow> Inl (ValueError Unpack))"

definition add_book :: "int \<Rightarrow> book list \<Rightarrow> pystr \<Rightarrow> pystr \<Rightarrow> pyval \<Rightarrow> error + book list" where
  "add_book today_year books_data t a y =
     (let last_added_book_id = (if books_data \<noteq> [] then book_id (last books_data) else 0) in
      case Book today_year last_added_book_id t a y of
        Inl e \<Rightarrow> Inl e
      | Inr new_book \<Rightarrow>
          (case search_books_by books_data (asc ''author = '' @ author new_book) True of
             Inl e \<Rightarrow> Inl e
           | Inr books_with_the_same_author \<Rightarrow>
               if list_ex (\<lambda>b. (title b, year b) = (title new_book, year new_book))
                    books_with_the_same_author
               then Inl AlreadyInTheLibrary
               else Inr (books_data @ [new_book])))"

definition delete_book :: "book list \<Rightarrow> int \<Rightarrow> error + book list" where
  "delete_book books_data bid =
     (case find_book_in_the_library books_data bid True of
        Inl e \<Rightarrow> Inl e
      | Inr book_index \<Rightarrow>
          if book_index = - 1 then Inl NotFoundInTheLibrary
          else py_pop books_data book_index)"

definition change_book_status :: "book list \<Rightarrow> int \<Rightarrow> error + book list" where
  "change_book_status books_data bid =
     (case find_book_in_the_library books_data bid True of
        Inl e \<Rightarrow> Inl e
      | Inr book_index \<Rightarrow>
          if book_index = - 1 then Inl NotFoundInTheLibrary
          else
            (case py_index books_data book_index of
               Inl e \<Rightarrow> Inl e
             | Inr b \<Rightarrow>
                 if status b = AVAILABLE
                 then py_setitem books_data book_index (b\<lparr>status := CHECKED_OUT\<rparr>)
                 else py_setitem books_data book_index (b\<lparr>status := AVAILABLE\<rparr>)))"

section \<open>The strings the statements are about\<close>

text \<open>
  The definitions of this section are not read off the source. They say, without a
  pattern, which strings a validator is compared with, and which characters a pattern
  can consume at all.
\<close>

text \<open>The characters that some class of a pattern admits.\<close>

fun admits :: "regex \<Rightarrow> cp \<Rightarrow> bool" where
  "admits Eps c = False"
| "admits Bol c = False"
| "admits Eol c = False"
| "admits (Cls items) c = in_class items c"
| "admits (Seq r1 r2) c = (admits r1 c \<or> admits r2 c)"
| "admits (Alt r1 r2) c = (admits r1 c \<or> admits r2 c)"
| "admits (Star r) c = admits r c"

definition is_letter :: "cp \<Rightarrow> bool" where
  "is_letter c = in_class LETTERS c"

definition is_author_sep :: "cp \<Rightarrow> bool" where
  "is_author_sep c = in_class AUTHOR_SEP c"

text \<open>
  A string made of groups, each one separator and then at least \<open>m\<close> letters, and the
  names built from them: at least five letters and nothing else, or at least two
  letters and then one or more such groups.
\<close>

function letter_groups :: "(cp \<Rightarrow> bool) \<Rightarrow> nat \<Rightarrow> pystr \<Rightarrow> bool" where
  "letter_groups sep m [] = True"
| "letter_groups sep m (c # cs) =
     (sep c \<and> m \<le> length (takeWhile is_letter cs) \<and>
      letter_groups sep m (dropWhile is_letter cs))"
  by pat_completeness auto
termination
  by (relation "measure (\<lambda>(sep, m, s). length s)") (auto simp: length_dropWhile_le less_Suc_eq_le)

definition name_shape :: "(cp \<Rightarrow> bool) \<Rightarrow> nat \<Rightarrow> pystr \<Rightarrow> bool" where
  "name_shape sep m a \<longleftrightarrow>
     (5 \<le> length a \<and> list_all is_letter a) \<or>
     (2 \<le> length (takeWhile is_letter a) \<and> dropWhile is_letter a \<noteq> [] \<and>
      letter_groups sep m (dropWhile is_letter a))"

text \<open>What the pattern of the source admits: the separator is an apostrophe, a hyphen
  or a white space character, and a group after the first needs one letter.\<close>

definition author_shape :: "pystr \<Rightarrow> bool" where
  "author_shape a = name_shape is_author_sep 1 a"

text \<open>The specification's words: groups of two or more letters, joined by single
  hyphens or spaces.\<close>

definition spec_author_shape :: "pystr \<Rightarrow> bool" where
  "spec_author_shape a = name_shape (\<lambda>c. c = 45 \<or> c = 32) 2 a"

definition is_title_char :: "cp \<Rightarrow> bool" where
  "is_title_char c = in_class (LETTERS @ [Range 48 57] @ TITLE_PUNCT) c"

definition is_title_tail_char :: "cp \<Rightarrow> bool" where
  "is_title_tail_char c = in_class (LETTERS @ TITLE_PUNCT) c"

text \<open>
  The three kinds of title the pattern describes: two leading letters and then title
  characters; one to four leading digits and then at least one character, none of them
  a digit; four digits and nothing else.
\<close>

definition title_shape :: "pystr \<Rightarrow> bool" where
  "title_shape t \<longleftrightarrow>
     (2 \<le> length (takeWhile is_letter t) \<and> list_all is_title_char (drop 2 t)) \<or>
     (1 \<le> length (takeWhile is_decimal t) \<and> length (takeWhile is_decimal t) \<le> 4 \<and>
      dropWhile is_decimal t \<noteq> [] \<and> list_all is_title_tail_char (dropWhile is_decimal t)) \<or>
     (length t = 4 \<and> list_all is_decimal t)"

section \<open>Catalogs to run the operations on\<close>

definition example_catalog :: "book list" where
  "example_catalog =
     [\<lparr>book_id = 1, title = asc ''Iliad'', author = asc ''Homer'', year = 1598,
       status = AVAILABLE\<rparr>,
      \<lparr>book_id = 2, title = asc ''Odyssey'', author = asc ''Homer'', year = 1614,
       status = CHECKED_OUT\<rparr>,
      \<lparr>book_id = 4, title = asc ''Emma'', author = asc ''Jane Austen'', year = 1815,
       status = AVAILABLE\<rparr>]"

definition damaged_catalog :: "book list" where
  "damaged_catalog =
     [\<lparr>book_id = 3, title = asc ''Emma'', author = asc ''Jane Austen'', year = 1815,
       status = asc ''lost''\<rparr>]"

text \<open>A catalog whose identifiers are not in ascending order.\<close>

definition unsorted_catalog :: "book list" where
  "unsorted_catalog =
     [\<lparr>book_id = 3, title = asc ''Emma'', author = asc ''Jane Austen'', year = 1815,
       status = AVAILABLE\<rparr>,
      \<lparr>book_id = 1, title = asc ''Iliad'', author = asc ''Homer'', year = 1598,
       status = AVAILABLE\<rparr>,
      \<lparr>book_id = 2, title = asc ''Odyssey'', author = asc ''Homer'', year = 1614,
       status = CHECKED_OUT\<rparr>]"

text \<open>The record that adding "Book", "Homer", "2000" to the empty catalog stores.\<close>

definition book_homer :: book where
  "book_homer = \<lparr>book_id = 1, title = asc ''Book'', author = asc ''Homer'', year = 2000,
                  status = AVAILABLE\<rparr>"

section \<open>Properties of the lookup\<close>

lemma ids_ascending_nth:
  "ids_ascending bs \<Longrightarrow> i < j \<Longrightarrow> j < length bs \<Longrightarrow> book_id (bs ! i) < book_id (bs ! j)"
  by (simp add: ids_ascending_def sorted_wrt_iff_nth_less)

lemma py_position_in_range:
  "0 \<le> i \<Longrightarrow> i < int len \<Longrightarrow> py_position len i = Some (nat i)"
  by (simp add: py_position_def)

lemma py_index_in_range:
  "0 \<le> i \<Longrightarrow> i < int (length xs) \<Longrightarrow> py_index xs i = Inr (xs ! nat i)"
  by (simp add: py_index_def py_position_in_range)

declare find_loop.simps [simp del]

lemma find_loop_unfold:
  assumes "lo \<le> hi" "0 \<le> lo" "hi < int (length bs)"
  shows "find_loop bs k r lo hi =
      (let mid = (lo + hi) div 2 in
       if book_id (bs ! nat mid) = k then (if r then Inr mid else Inr (book_id (bs ! nat mid)))
       else if book_id (bs ! nat mid) > k then find_loop bs k r lo (mid - 1)
       else find_loop bs k r (mid + 1) hi)"
proof -
  have "0 \<le> (lo + hi) div 2" "(lo + hi) div 2 < int (length bs)"
    using assms by auto
  then have "py_index bs ((lo + hi) div 2) = Inr (bs ! nat ((lo + hi) div 2))"
    by (rule py_index_in_range)
  then show ?thesis
    using assms(1) by (subst find_loop.simps) (simp add: Let_def)
qed

lemma find_loop_found:
  "ids_ascending bs \<Longrightarrow> 0 \<le> lo \<Longrightarrow> hi < int (length bs) \<Longrightarrow> lo \<le> int i \<Longrightarrow> int i \<le> hi \<Longrightarrow>
         book_id (bs ! i) = k \<Longrightarrow>
         find_loop bs k r lo hi = Inr (if r then int i else k)"
proof (induction bs k r lo hi rule: find_loop.induct)
  case (1 bs k r lo hi)
  define mid where "mid = (lo + hi) div 2"
  have le: "lo \<le> hi" using "1.prems" by linarith
  have mid_rng: "lo \<le> mid" "mid \<le> hi" using le by (auto simp: mid_def)
  have mid0: "0 \<le> mid" "mid < int (length bs)" using mid_rng "1.prems" by auto
  have idx: "py_index bs mid = Inr (bs ! nat mid)"
    using mid0 by (rule py_index_in_range)
  have ilen: "i < length bs" and mlen: "nat mid < length bs"
    using "1.prems" mid0 by linarith+
  have ord: "\<And>a b. a < b \<Longrightarrow> b < length bs \<Longrightarrow> book_id (bs ! a) < book_id (bs ! b)"
    using "1.prems"(1) by (rule ids_ascending_nth)
  have unfold: "find_loop bs k r lo hi =
      (if book_id (bs ! nat mid) = k then (if r then Inr mid else Inr (book_id (bs ! nat mid)))
       else if book_id (bs ! nat mid) > k then find_loop bs k r lo (mid - 1)
       else find_loop bs k r (mid + 1) hi)"
    using find_loop_unfold[OF le "1.prems"(2,3)] by (simp add: mid_def Let_def)
  consider (eq) "nat mid = i" | (below) "i < nat mid" | (above) "nat mid < i" by linarith
  then show ?case
  proof cases
    case eq
    then have "mid = int i" using mid0 by linarith
    then show ?thesis using unfold "1.prems"(6) by simp
  next
    case below
    from ord[OF below mlen] "1.prems"(6) have gt: "k < book_id (bs ! nat mid)" by simp
    then have ne: "book_id (bs ! nat mid) \<noteq> k" by simp
    have "find_loop bs k r lo (mid - 1) = Inr (if r then int i else k)"
      using "1.IH"(1)[OF le mid_def idx ne gt] "1.prems" below mid0
      by simp
    then show ?thesis using unfold ne gt by simp
  next
    case above
    from ord[OF above ilen] "1.prems"(6) have lt: "book_id (bs ! nat mid) < k" by simp
    then have ne: "book_id (bs ! nat mid) \<noteq> k" and ngt: "\<not> k < book_id (bs ! nat mid)" by simp_all
    have "find_loop bs k r (mid + 1) hi = Inr (if r then int i else k)"
      using "1.IH"(2)[OF le mid_def idx ne ngt] "1.prems" above mid0
      by simp
    then show ?thesis using unfold ne ngt by simp
  qed
qed

text \<open>Without any order on the catalog: the loop raises nothing, and what it returns is
  the sentinel or a position in range that holds the identifier.\<close>

lemma find_loop_result:
  "0 \<le> lo \<Longrightarrow> hi < int (length bs) \<Longrightarrow>
   find_loop bs k True lo hi = Inr (- 1) \<or>
   (\<exists>m. lo \<le> int m \<and> int m \<le> hi \<and> book_id (bs ! m) = k \<and> find_loop bs k True lo hi = Inr (int m))"
proof (induction bs k "True" lo hi rule: find_loop.induct)
  case (1 bs k lo hi)
  show ?case
  proof (cases "lo \<le> hi")
    case False
    then show ?thesis by (subst find_loop.simps) simp
  next
    case le: True
    define mid where "mid = (lo + hi) div 2"
    have mid_rng: "lo \<le> mid" "mid \<le> hi" using le by (auto simp: mid_def)
    have mid0: "0 \<le> mid" "mid < int (length bs)" using mid_rng "1.prems" by auto
    have idx: "py_index bs mid = Inr (bs ! nat mid)"
      using mid0 by (rule py_index_in_range)
    have unfold: "find_loop bs k True lo hi =
      (if book_id (bs ! nat mid) = k then Inr mid
       else if book_id (bs ! nat mid) > k then find_loop bs k True lo (mid - 1)
       else find_loop bs k True (mid + 1) hi)"
      using find_loop_unfold[OF le "1.prems"] by (simp add: mid_def Let_def)
    show ?thesis
    proof (cases "book_id (bs ! nat mid) = k")
      case True
      then have "find_loop bs k True lo hi = Inr (int (nat mid))" using unfold mid0 by simp
      moreover have "lo \<le> int (nat mid)" "int (nat mid) \<le> hi" using mid_rng mid0 by auto
      ultimately show ?thesis using True by blast
    next
      case ne: False
      show ?thesis
      proof (cases "k < book_id (bs ! nat mid)")
        case gt: True
        have "find_loop bs k True lo (mid - 1) = Inr (- 1) \<or>
          (\<exists>m. lo \<le> int m \<and> int m \<le> mid - 1 \<and> book_id (bs ! m) = k \<and>
               find_loop bs k True lo (mid - 1) = Inr (int m))"
          using "1.hyps"(1)[OF le mid_def idx ne gt] "1.prems" mid0 by simp
        then show ?thesis using unfold ne gt mid_rng by (auto intro: order_trans)
      next
        case ngt: False
        have "find_loop bs k True (mid + 1) hi = Inr (- 1) \<or>
          (\<exists>m. mid + 1 \<le> int m \<and> int m \<le> hi \<and> book_id (bs ! m) = k \<and>
               find_loop bs k True (mid + 1) hi = Inr (int m))"
          using "1.hyps"(2)[OF le mid_def idx ne ngt] "1.prems" mid0 by simp
        then show ?thesis using unfold ne ngt mid_rng by (auto intro: order_trans)
      qed
    qed
  qed
qed

lemma find_book_result:
  "find_book_in_the_library bs k True = Inr (- 1) \<or>
   (\<exists>m<length bs. book_id (bs ! m) = k \<and> find_book_in_the_library bs k True = Inr (int m))"
  using find_loop_result[of 0 "int (length bs) - 1" bs k]
  by (auto simp: find_book_in_the_library_def)

lemma find_book_found:
  "ids_ascending bs \<Longrightarrow> i < length bs \<Longrightarrow> book_id (bs ! i) = k \<Longrightarrow>
   find_book_in_the_library bs k True = Inr (int i)"
  using find_loop_found[of bs 0 "int (length bs) - 1" i k True]
  by (simp add: find_book_in_the_library_def)

lemma find_book_absent:
  "\<forall>b\<in>set bs. book_id b \<noteq> k \<Longrightarrow> find_book_in_the_library bs k True = Inr (- 1)"
  using find_book_result[of bs k] nth_mem[of _ bs] by blast

text \<open>
  C2. On a catalog whose identifiers are strictly ascending (of any length, the empty
  one included), the lookup used by delete and toggle returns the position of the
  record that has the requested identifier whenever there is one, and the sentinel
  \<open>-1\<close> whenever no record has it.
\<close>

theorem find_book_binary_search:
  "ids_ascending bs \<Longrightarrow>
   (\<forall>i<length bs. book_id (bs ! i) = k \<longrightarrow>
       find_book_in_the_library bs k True = Inr (int i)) \<and>
   ((\<forall>b\<in>set bs. book_id b \<noteq> k) \<longrightarrow> find_book_in_the_library bs k True = Inr (- 1))"
  using find_book_found find_book_absent by blast

lemma example_catalog_ascending: "ids_ascending example_catalog"
  by (simp add: ids_ascending_def example_catalog_def)

theorem find_book_binary_search_witness:
  "ids_ascending example_catalog \<and>
   find_book_in_the_library example_catalog 4 True = Inr 2 \<and>
   find_book_in_the_library example_catalog 3 True = Inr (- 1) \<and>
   find_book_in_the_library [] 3 True = Inr (- 1)"
proof -
  have a: "ids_ascending example_catalog" by (rule example_catalog_ascending)
  have e: "ids_ascending []" by (simp add: ids_ascending_def)
  have "find_book_in_the_library example_catalog 4 True = Inr (int 2)"
    using find_book_binary_search[OF a, of 4, THEN conjunct1, rule_format, of 2]
    by (simp add: example_catalog_def)
  moreover have "find_book_in_the_library example_catalog 3 True = Inr (- 1)"
    using find_book_binary_search[OF a, of 3] by (simp add: example_catalog_def)
  moreover have "find_book_in_the_library [] 3 True = Inr (- 1)"
    using find_book_binary_search[OF e, of 3] by simp
  ultimately show ?thesis using a by simp
qed

section \<open>Properties of delete and toggle\<close>

lemma status_labels_differ: "AVAILABLE \<noteq> CHECKED_OUT"
  by (simp add: AVAILABLE_def CHECKED_OUT_def)

lemma py_pop_in_range:
  "i < length xs \<Longrightarrow> py_pop xs (int i) = Inr (take i xs @ drop (Suc i) xs)"
  by (simp add: py_pop_def py_position_in_range)

lemma py_setitem_in_range:
  "i < length xs \<Longrightarrow> py_setitem xs (int i) v = Inr (xs[i := v])"
  by (simp add: py_setitem_def py_position_in_range)

lemma find_book_position:
  assumes "find_book_in_the_library bs k True = Inr (int i)"
  shows "i < length bs \<and> book_id (bs ! i) = k"
  using find_book_result[of bs k] assms by auto

text \<open>What the two mutating operations do once the lookup has given a position.\<close>

lemma delete_book_at:
  assumes "find_book_in_the_library bs k True = Inr (int i)"
  shows "delete_book bs k = Inr (take i bs @ drop (Suc i) bs)"
proof -
  have "i < length bs" using find_book_position[OF assms] by simp
  then show ?thesis using assms by (simp add: delete_book_def py_pop_in_range)
qed

lemma change_book_status_at:
  assumes "find_book_in_the_library bs k True = Inr (int i)"
  shows "change_book_status bs k =
     Inr (bs[i := (bs ! i)\<lparr>status := (if status (bs ! i) = AVAILABLE then CHECKED_OUT else AVAILABLE)\<rparr>])"
proof -
  have "i < length bs" using find_book_position[OF assms] by simp
  then show ?thesis
    using assms by (simp add: change_book_status_def py_setitem_in_range py_index_in_range)
qed

lemma delete_book_cases:
  "delete_book bs k = Inl NotFoundInTheLibrary \<or>
   (\<exists>i<length bs. book_id (bs ! i) = k \<and> delete_book bs k = Inr (take i bs @ drop (Suc i) bs))"
proof -
  from find_book_result[of bs k] show ?thesis
  proof
    assume "find_book_in_the_library bs k True = Inr (- 1)"
    then show ?thesis by (simp add: delete_book_def)
  next
    assume "\<exists>m<length bs. book_id (bs ! m) = k \<and> find_book_in_the_library bs k True = Inr (int m)"
    then obtain m where "m < length bs" "book_id (bs ! m) = k"
      "find_book_in_the_library bs k True = Inr (int m)" by blast
    then show ?thesis using delete_book_at by blast
  qed
qed

lemma change_book_status_cases:
  "change_book_status bs k = Inl NotFoundInTheLibrary \<or>
   (\<exists>i<length bs. book_id (bs ! i) = k \<and> change_book_status bs k =
     Inr (bs[i := (bs ! i)\<lparr>status := (if status (bs ! i) = AVAILABLE then CHECKED_OUT else AVAILABLE)\<rparr>]))"
proof -
  from find_book_result[of bs k] show ?thesis
  proof
    assume "find_book_in_the_library bs k True = Inr (- 1)"
    then show ?thesis by (simp add: change_book_status_def)
  next
    assume "\<exists>m<length bs. book_id (bs ! m) = k \<and> find_book_in_the_library bs k True = Inr (int m)"
    then obtain m where "m < length bs" "book_id (bs ! m) = k"
      "find_book_in_the_library bs k True = Inr (int m)" by blast
    then show ?thesis using change_book_status_at by blast
  qed
qed

lemma ids_after_status_update:
  "map book_id (bs[i := (bs ! i)\<lparr>status := s\<rparr>]) = map book_id bs"
proof (cases "i < length bs")
  case True
  then have "(map book_id bs)[i := book_id (bs ! i)] = map book_id bs"
    by (metis list_update_id nth_map)
  then show ?thesis by (simp add: map_update)
next
  case False
  then have "bs[i := (bs ! i)\<lparr>status := s\<rparr>] = bs" by (simp add: list_update_beyond)
  then show ?thesis by simp
qed

lemma ids_ascending_remove:
  assumes "ids_ascending bs"
  shows "ids_ascending (take i bs @ drop (Suc i) bs)"
proof -
  have "sorted_wrt (<) (take i (map book_id bs) @ drop i (map book_id bs))"
    using assms by (simp add: ids_ascending_def)
  then have "sorted_wrt (<) (take i (map book_id bs))"
    and "sorted_wrt (<) (drop i (map book_id bs))"
    and cross: "\<forall>x\<in>set (take i (map book_id bs)). \<forall>y\<in>set (drop i (map book_id bs)). x < y"
    unfolding sorted_wrt_append by blast+
  moreover have "sorted_wrt (<) (drop (Suc i) (map book_id bs))"
    using assms by (simp add: ids_ascending_def)
  moreover have "set (drop (Suc i) (map book_id bs)) \<subseteq> set (drop i (map book_id bs))"
    by (simp add: set_drop_subset_set_drop)
  ultimately have "sorted_wrt (<) (take i (map book_id bs) @ drop (Suc i) (map book_id bs))"
    unfolding sorted_wrt_append by blast
  then show ?thesis by (simp add: ids_ascending_def take_map drop_map)
qed

lemma remove_is_filter:
  assumes "ids_ascending bs" "i < length bs"
  shows "take i bs @ drop (Suc i) bs = filter (\<lambda>b. book_id b \<noteq> book_id (bs ! i)) bs"
proof -
  have lo: "\<forall>b\<in>set (take i bs). book_id b \<noteq> book_id (bs ! i)"
  proof
    fix b assume "b \<in> set (take i bs)"
    then obtain j where "j < i" "b = bs ! j"
      using assms(2) by (auto simp: in_set_conv_nth)
    then show "book_id b \<noteq> book_id (bs ! i)"
      using ids_ascending_nth[OF assms(1) \<open>j < i\<close> assms(2)] by simp
  qed
  have hi: "\<forall>b\<in>set (drop (Suc i) bs). book_id b \<noteq> book_id (bs ! i)"
  proof
    fix b assume "b \<in> set (drop (Suc i) bs)"
    then obtain j where j: "j < length bs - Suc i" "b = bs ! (Suc i + j)"
      by (auto simp: in_set_conv_nth)
    then have "Suc i + j < length bs" by linarith
    then have "book_id (bs ! i) < book_id (bs ! (Suc i + j))"
      using ids_ascending_nth[OF assms(1), of i "Suc i + j"] by simp
    then show "book_id b \<noteq> book_id (bs ! i)"
      using j by simp
  qed
  have "filter (\<lambda>b. book_id b \<noteq> book_id (bs ! i)) (take i bs @ bs ! i # drop (Suc i) bs)
        = take i bs @ drop (Suc i) bs"
    using lo hi by (simp add: filter_id_conv)
  then show ?thesis using id_take_nth_drop[OF assms(2)] by simp
qed

text \<open>
  C5. In a catalog with strictly ascending identifiers that holds a record with the
  given identifier, at position \<open>i\<close>, delete removes the record at that position and
  nothing else: what is left is the catalog without its \<open>i\<close>-th element, which is the
  catalog filtered by "identifier differs", so every other record is kept as it was and
  in its place in the order; the catalog is one record shorter.
\<close>

theorem delete_book_removes_exactly_one:
  "ids_ascending bs \<Longrightarrow> i < length bs \<Longrightarrow> book_id (bs ! i) = k \<Longrightarrow>
   delete_book bs k = Inr (take i bs @ drop (Suc i) bs) \<and>
   take i bs @ drop (Suc i) bs = filter (\<lambda>b. book_id b \<noteq> k) bs \<and>
   Suc (length (take i bs @ drop (Suc i) bs)) = length bs"
proof -
  assume a: "ids_ascending bs" and i: "i < length bs" and k: "book_id (bs ! i) = k"
  have "find_book_in_the_library bs k True = Inr (int i)"
    using a i k by (rule find_book_found)
  then have "delete_book bs k = Inr (take i bs @ drop (Suc i) bs)"
    by (rule delete_book_at)
  moreover have "take i bs @ drop (Suc i) bs = filter (\<lambda>b. book_id b \<noteq> k) bs"
    using remove_is_filter[OF a i] k by simp
  moreover have "Suc (length (take i bs @ drop (Suc i) bs)) = length bs"
    using i by simp
  ultimately show ?thesis by simp
qed

theorem delete_book_removes_exactly_one_witness:
  "ids_ascending example_catalog \<and> (1::nat) < length example_catalog \<and>
   book_id (example_catalog ! 1) = 2 \<and>
   delete_book example_catalog 2 = Inr [example_catalog ! 0, example_catalog ! 2]"
  using delete_book_removes_exactly_one[OF example_catalog_ascending, of 1 2]
    example_catalog_ascending
  by (simp add: example_catalog_def)

text \<open>The lookup reads nothing but the identifiers.\<close>

lemma find_loop_step:
  "find_loop bs k r lo hi =
     (if lo \<le> hi then
        (case py_index bs ((lo + hi) div 2) of
           Inl e \<Rightarrow> Inl e
         | Inr b \<Rightarrow>
             if book_id b = k then (if r then Inr ((lo + hi) div 2) else Inr (book_id b))
             else if k < book_id b then find_loop bs k r lo ((lo + hi) div 2 - 1)
             else find_loop bs k r ((lo + hi) div 2 + 1) hi)
      else Inr (- 1))"
  by (subst find_loop.simps) (simp add: Let_def)

lemma find_loop_reads_ids:
  "map book_id bs' = map book_id bs \<Longrightarrow> find_loop bs' k r lo hi = find_loop bs k r lo hi"
proof (induction bs k r lo hi rule: find_loop.induct)
  case (1 bs k r lo hi)
  have len: "length bs' = length bs" using "1.prems" by (rule map_eq_imp_length_eq)
  define mid where "mid = (lo + hi) div 2"
  note step = find_loop_step[of bs k r lo hi, folded mid_def]
    and step' = find_loop_step[of bs' k r lo hi, folded mid_def]
  show ?case
  proof (cases "lo \<le> hi")
    case False
    then show ?thesis unfolding step step' by simp
  next
    case le: True
    show ?thesis
    proof (cases "py_position (length bs) mid")
      case None
      then have "py_index bs mid = Inl IndexError" "py_index bs' mid = Inl IndexError"
        using len by (simp_all add: py_index_def)
      then show ?thesis unfolding step step' using le by simp
    next
      case (Some j)
      then have j: "j < length bs" by (auto simp: py_position_def split: if_splits)
      have idx: "py_index bs mid = Inr (bs ! j)" "py_index bs' mid = Inr (bs' ! j)"
        using Some len by (simp_all add: py_index_def)
      have same: "book_id (bs' ! j) = book_id (bs ! j)"
        using "1.prems" j len by (metis nth_map)
      show ?thesis
      proof (cases "book_id (bs ! j) = k")
        case True
        then show ?thesis unfolding step step' using le idx same by simp
      next
        case ne: False
        show ?thesis
        proof (cases "k < book_id (bs ! j)")
          case gt: True
          have "find_loop bs' k r lo (mid - 1) = find_loop bs k r lo (mid - 1)"
            using "1.IH"(1)[OF le mid_def idx(1) ne gt "1.prems"] .
          then show ?thesis unfolding step step' using le idx same ne gt by simp
        next
          case ngt: False
          have "find_loop bs' k r (mid + 1) hi = find_loop bs k r (mid + 1) hi"
            using "1.IH"(2)[OF le mid_def idx(1) ne ngt "1.prems"] .
          then show ?thesis unfolding step step' using le idx same ne ngt by simp
        qed
      qed
    qed
  qed
qed

lemma find_book_reads_ids:
  "map book_id bs' = map book_id bs \<Longrightarrow>
   find_book_in_the_library bs' k r = find_book_in_the_library bs k r"
proof -
  assume m: "map book_id bs' = map book_id bs"
  then have "length bs' = length bs" by (rule map_eq_imp_length_eq)
  then show ?thesis
    unfolding find_book_in_the_library_def using find_loop_reads_ids[OF m] by simp
qed

text \<open>Two toggles of an identifier the lookup finds, in any catalog.\<close>

lemma toggle_twice_found:
  assumes f: "find_book_in_the_library bs k True = Inr (int i)"
    and s: "status (bs ! i) \<in> {AVAILABLE, CHECKED_OUT}"
  shows "\<exists>bs'. change_book_status bs k = Inr bs' \<and>
      status (bs' ! i) = (if status (bs ! i) = AVAILABLE then CHECKED_OUT else AVAILABLE) \<and>
      status (bs' ! i) \<noteq> status (bs ! i) \<and>
      change_book_status bs' k = Inr bs"
proof -
  define s' where "s' = (if status (bs ! i) = AVAILABLE then CHECKED_OUT else AVAILABLE)"
  define bs' where "bs' = bs[i := (bs ! i)\<lparr>status := s'\<rparr>]"
  have i: "i < length bs" using find_book_position[OF f] by simp
  have one: "change_book_status bs k = Inr bs'"
    using change_book_status_at[OF f] by (simp add: bs'_def s'_def)
  have nth: "bs' ! i = (bs ! i)\<lparr>status := s'\<rparr>" using i by (simp add: bs'_def)
  have flipped: "s' \<noteq> status (bs ! i)"
    using s status_labels_differ by (auto simp: s'_def)
  have restore: "(if s' = AVAILABLE then CHECKED_OUT else AVAILABLE) = status (bs ! i)"
    using s status_labels_differ by (auto simp: s'_def)
  have "map book_id bs' = map book_id bs"
    by (simp add: bs'_def ids_after_status_update)
  then have "find_book_in_the_library bs' k True = find_book_in_the_library bs k True"
    by (rule find_book_reads_ids)
  then have "find_book_in_the_library bs' k True = Inr (int i)"
    using f by simp
  from change_book_status_at[OF this]
  have "change_book_status bs' k = Inr (bs'[i := (bs' ! i)\<lparr>status := status (bs ! i)\<rparr>])"
    using nth restore by simp
  also have "bs'[i := (bs' ! i)\<lparr>status := status (bs ! i)\<rparr>] = bs"
    using i by (simp add: bs'_def list_update_same_conv)
  finally have two: "change_book_status bs' k = Inr bs" .
  show ?thesis using one two nth flipped by (auto simp: s'_def)
qed

text \<open>
  C3, with the order of the catalog stated. In a catalog with strictly ascending
  identifiers, for every record that is present and whose status is one of the two
  labels, one toggle succeeds and flips the status to the other label, and a second
  toggle of the same identifier gives back the catalog as it was.
\<close>

theorem toggle_status_involution:
  "ids_ascending bs \<Longrightarrow> i < length bs \<Longrightarrow> book_id (bs ! i) = k \<Longrightarrow>
   status (bs ! i) \<in> {AVAILABLE, CHECKED_OUT} \<Longrightarrow>
   (\<exists>bs'. change_book_status bs k = Inr bs' \<and>
      status (bs' ! i) = (if status (bs ! i) = AVAILABLE then CHECKED_OUT else AVAILABLE) \<and>
      status (bs' ! i) \<noteq> status (bs ! i) \<and>
      change_book_status bs' k = Inr bs)"
proof -
  assume "ids_ascending bs" "i < length bs" "book_id (bs ! i) = k"
  then have "find_book_in_the_library bs k True = Inr (int i)" by (rule find_book_found)
  moreover assume "status (bs ! i) \<in> {AVAILABLE, CHECKED_OUT}"
  ultimately show ?thesis by (rule toggle_twice_found)
qed

theorem toggle_status_involution_witness:
  "ids_ascending example_catalog \<and> (1::nat) < length example_catalog \<and>
   book_id (example_catalog ! 1) = 2 \<and> status (example_catalog ! 1) = CHECKED_OUT \<and>
   (\<exists>bs'. change_book_status example_catalog 2 = Inr bs' \<and> status (bs' ! 1) = AVAILABLE \<and>
      change_book_status bs' 2 = Inr example_catalog)"
proof -
  have c: "status (example_catalog ! 1) = CHECKED_OUT" "book_id (example_catalog ! 1) = 2"
    "(1::nat) < length example_catalog"
    by (simp_all add: example_catalog_def)
  have "status (example_catalog ! 1) \<in> {AVAILABLE, CHECKED_OUT}"
    using c by simp
  then obtain bs' where "change_book_status example_catalog 2 = Inr bs'"
    "status (bs' ! 1) = (if status (example_catalog ! 1) = AVAILABLE then CHECKED_OUT else AVAILABLE)"
    "change_book_status bs' 2 = Inr example_catalog"
    using toggle_status_involution[OF example_catalog_ascending c(3) c(2)] by blast
  then have "change_book_status example_catalog 2 = Inr bs' \<and> status (bs' ! 1) = AVAILABLE \<and>
      change_book_status bs' 2 = Inr example_catalog"
    using c status_labels_differ by simp
  then show ?thesis using c example_catalog_ascending by blast
qed

text \<open>
  C3 as it is worded, for every catalog, fails. In the catalog whose identifiers are
  3, 1, 2 in this order, the record with identifier 3 is present, at position 0, and
  its status is the first label; the lookup tries position 1 and then position 2,
  returns the sentinel, and the toggle raises \<open>NotFoundInTheLibrary\<close> without flipping
  anything.
\<close>

theorem toggle_status_unsorted_catalog:
  "book_id (unsorted_catalog ! 0) = 3 \<and> status (unsorted_catalog ! 0) = AVAILABLE \<and>
   \<not> ids_ascending unsorted_catalog \<and>
   find_book_in_the_library unsorted_catalog 3 True = Inr (- 1) \<and>
   change_book_status unsorted_catalog 3 = Inl NotFoundInTheLibrary"
proof -
  have l: "int (length unsorted_catalog) - 1 = 2" by (simp add: unsorted_catalog_def)
  have p1: "py_index unsorted_catalog 1 =
      Inr \<lparr>book_id = 1, title = asc ''Iliad'', author = asc ''Homer'', year = 1598,
           status = AVAILABLE\<rparr>"
    and p2: "py_index unsorted_catalog 2 =
      Inr \<lparr>book_id = 2, title = asc ''Odyssey'', author = asc ''Homer'', year = 1614,
           status = CHECKED_OUT\<rparr>"
    by (simp_all add: py_index_def py_position_def unsorted_catalog_def)
  have "find_loop unsorted_catalog 3 True 3 2 = Inr (- 1)"
    by (subst find_loop_step) simp
  then have "find_loop unsorted_catalog 3 True 2 2 = Inr (- 1)"
    by (subst find_loop_step) (simp add: p2)
  then have "find_loop unsorted_catalog 3 True 0 2 = Inr (- 1)"
    by (subst find_loop_step) (simp add: p1)
  then have f: "find_book_in_the_library unsorted_catalog 3 True = Inr (- 1)"
    by (simp add: find_book_in_the_library_def l)
  then have "change_book_status unsorted_catalog 3 = Inl NotFoundInTheLibrary"
    by (simp add: change_book_status_def)
  moreover have "\<not> ids_ascending unsorted_catalog"
    by (simp add: ids_ascending_def unsorted_catalog_def)
  moreover have "book_id (unsorted_catalog ! 0) = 3 \<and> status (unsorted_catalog ! 0) = AVAILABLE"
    by (simp add: unsorted_catalog_def)
  ultimately show ?thesis using f by simp
qed

text \<open>
  C10. Whenever the lookup finds the identifier, at position \<open>i\<close>, the toggle succeeds
  and leaves at that position the second label where the first one stood, and the
  first label where anything else stood, a status that is neither label included;
  so after one toggle the status is one of the two labels.
\<close>

theorem toggle_status_maps_into_labels:
  "find_book_in_the_library bs k True = Inr (int i) \<Longrightarrow>
   (\<exists>bs'. change_book_status bs k = Inr bs' \<and>
      status (bs' ! i) = (if status (bs ! i) = AVAILABLE then CHECKED_OUT else AVAILABLE) \<and>
      status (bs' ! i) \<in> {AVAILABLE, CHECKED_OUT})"
proof -
  assume f: "find_book_in_the_library bs k True = Inr (int i)"
  then have i: "i < length bs" using find_book_position by blast
  show ?thesis
    using change_book_status_at[OF f] i by auto
qed

theorem toggle_status_maps_into_labels_witness:
  "find_book_in_the_library damaged_catalog 3 True = Inr (int 0) \<and>
   status (damaged_catalog ! 0) \<notin> {AVAILABLE, CHECKED_OUT} \<and>
   (\<exists>bs'. change_book_status damaged_catalog 3 = Inr bs' \<and> status (bs' ! 0) = AVAILABLE)"
proof -
  have "ids_ascending damaged_catalog"
    by (simp add: ids_ascending_def damaged_catalog_def)
  then have f: "find_book_in_the_library damaged_catalog 3 True = Inr (int 0)"
    by (rule find_book_found) (simp_all add: damaged_catalog_def)
  have n: "status (damaged_catalog ! 0) \<notin> {AVAILABLE, CHECKED_OUT}"
    by (simp add: damaged_catalog_def AVAILABLE_def CHECKED_OUT_def asc_def)
  show ?thesis
    using toggle_status_maps_into_labels[OF f] f n by auto
qed

section \<open>The year validator\<close>

lemmas strip_defs = py_strip_def py_lstrip_def py_rstrip_def is_space_def

lemma int_of_str_2024: "int_of_str (asc ''2024'') = Some 2024"
  by (simp add: int_of_str_def unsigned_value_def asc_def int_strip_def is_int_space_def
      is_space_def is_decimal_def)

lemma int_of_str_2000: "int_of_str (asc ''2000'') = Some 2000"
  by (simp add: int_of_str_def unsigned_value_def asc_def int_strip_def is_int_space_def
      is_space_def is_decimal_def)

lemma int_of_str_letters: "int_of_str (asc ''MMXX'') = None"
  by (simp add: int_of_str_def unsigned_value_def asc_def int_strip_def is_int_space_def
      is_space_def is_decimal_def)

text \<open>
  C9. Whatever \<open>int()\<close> makes of the input decides: an integer \<open>y\<close> is returned exactly
  when \<open>0 < y \<le> today_year\<close> and is otherwise refused as out of range (so zero, the
  negative years and the years after the current one are refused, and the current year
  is accepted); an input \<open>int()\<close> refuses gives the other \<open>ValueError\<close>, which differs
  from the out-of-range one.
\<close>

theorem validate_year_range:
  "(py_int v = Some y \<longrightarrow>
      validate_year today_year v =
        (if 0 < y \<and> y \<le> today_year then Inr y else Inl (ValueError YearOutOfRange))) \<and>
   (py_int v = None \<longrightarrow> validate_year today_year v = Inl (ValueError YearNotInt)) \<and>
   (y \<le> 0 \<or> today_year < y \<longrightarrow>
      validate_year today_year (PInt y) = Inl (ValueError YearOutOfRange)) \<and>
   (0 < today_year \<longrightarrow> validate_year today_year (PInt today_year) = Inr today_year) \<and>
   ValueError YearNotInt \<noteq> ValueError YearOutOfRange"
  by (auto simp: validate_year_def)

theorem validate_year_range_witness:
  "validate_year 2024 (PStr (asc ''2024'')) = Inr 2024 \<and>
   validate_year 2024 (PStr (asc ''MMXX'')) = Inl (ValueError YearNotInt) \<and>
   validate_year 2024 (PInt 0) = Inl (ValueError YearOutOfRange) \<and>
   validate_year 2024 (PInt (- 5)) = Inl (ValueError YearOutOfRange) \<and>
   validate_year 2024 (PInt 2025) = Inl (ValueError YearOutOfRange) \<and>
   validate_year 2024 (PInt 2024) = Inr 2024"
  using validate_year_range[of "PStr (asc ''2024'')" 2024 2024]
    validate_year_range[of "PStr (asc ''MMXX'')" 0 2024]
    validate_year_range[of "PInt 0" 0 2024]
    validate_year_range[of "PInt (- 5)" "- 5" 2024]
    validate_year_range[of "PInt 2025" 2025 2024]
    int_of_str_2024 int_of_str_letters
  by simp

section \<open>Properties of \<open>title\<close>, \<open>strip\<close> and \<open>split\<close>\<close>

lemma space_not_cased: "is_space c \<Longrightarrow> \<not> is_cased c"
  by (auto simp: is_space_def is_cased_def is_upper_def is_lower_def)

lemma space_to_title [simp]: "is_space (to_title c) = is_space c"
  by (auto simp: is_space_def to_title_def)

lemma space_to_lower [simp]: "is_space (to_lower c) = is_space c"
  by (auto simp: is_space_def to_lower_def)

lemma cased_to_title [simp]: "is_cased (to_title c) = is_cased c"
  by (auto simp: is_cased_def is_upper_def is_lower_def to_title_def)

lemma cased_to_lower [simp]: "is_cased (to_lower c) = is_cased c"
  by (auto simp: is_cased_def is_upper_def is_lower_def to_lower_def)

lemma to_title_idem [simp]: "to_title (to_title c) = to_title c"
  by (auto simp: to_title_def)

lemma to_lower_idem [simp]: "to_lower (to_lower c) = to_lower c"
  by (auto simp: to_lower_def)

lemma space_unchanged: "is_space c \<Longrightarrow> to_title c = c \<and> to_lower c = c"
  by (auto simp: is_space_def to_title_def to_lower_def)

lemma title_from_idem: "title_from p (title_from p s) = title_from p s"
  by (induction s arbitrary: p) auto

lemma py_title_idem: "py_title (py_title s) = py_title s"
  by (simp add: py_title_def title_from_idem)

lemma length_title_from [simp]: "length (title_from p s) = length s"
  by (induction s arbitrary: p) auto

lemma all_space_title_from [simp]: "list_all is_space (title_from p s) = list_all is_space s"
  by (induction s arbitrary: p) auto

lemma title_from_lstrip:
  "title_from False (dropWhile is_space s) = dropWhile is_space (title_from False s)"
proof (induction s)
  case Nil
  then show ?case by simp
next
  case (Cons c s)
  then show ?case
    by (cases "is_space c") (auto simp: space_not_cased space_unchanged)
qed

lemma rstrip_Cons:
  "py_rstrip (c # s) = (if list_all is_space (c # s) then [] else c # py_rstrip s)"
proof -
  have "dropWhile is_space (rev s @ [c]) =
        (if list_all is_space s then dropWhile is_space [c] else dropWhile is_space (rev s) @ [c])"
    by (auto simp: dropWhile_append list_all_iff)
  then show ?thesis
    by (auto simp: py_rstrip_def list_all_iff)
qed

lemma rstrip_Nil [simp]: "py_rstrip [] = []"
  by (simp add: py_rstrip_def)

lemma title_from_rstrip: "title_from p (py_rstrip s) = py_rstrip (title_from p s)"
proof (induction s arbitrary: p)
  case Nil
  then show ?case by simp
next
  case (Cons c s)
  show ?case
    by (simp add: rstrip_Cons Cons.IH)
qed

lemma py_title_strip: "py_strip (py_title s) = py_title (py_strip s)"
  by (simp add: py_strip_def py_lstrip_def py_title_def title_from_lstrip title_from_rstrip)

lemma rstrip_all_space: "list_all is_space (py_rstrip s) = list_all is_space s"
  by (induction s) (auto simp: rstrip_Cons)

lemma rstrip_idem: "py_rstrip (py_rstrip s) = py_rstrip s"
  by (induction s) (auto simp: rstrip_Cons rstrip_all_space)

lemma lstrip_rstrip:
  "dropWhile is_space (py_rstrip (dropWhile is_space s)) = py_rstrip (dropWhile is_space s)"
proof (cases "dropWhile is_space s")
  case Nil
  show ?thesis by (simp only: Nil rstrip_Nil dropWhile.simps)
next
  case (Cons c cs)
  then have "\<not> is_space c" using hd_dropWhile[of is_space s] by auto
  then show ?thesis using Cons by (simp add: rstrip_Cons)
qed

lemma py_strip_idem: "py_strip (py_strip s) = py_strip s"
  by (simp add: py_strip_def py_lstrip_def lstrip_rstrip rstrip_idem)

section \<open>Properties of the search\<close>

lemma SEP_eq: "asc '' = '' = [32, 61, 32]"
  by (simp add: asc_def)

lemma split_no_separator:
  "61 \<notin> set s \<Longrightarrow> py_split_from [32, 61, 32] acc s = [acc @ s]"
proof (induction s arbitrary: acc)
  case Nil
  then show ?case by simp
next
  case (Cons c s)
  have ne: "\<not> ([32, 61, 32] \<noteq> [] \<and> take (length [32, 61, 32]) (c # s) = [32, 61, 32::nat])"
  proof
    assume "[32, 61, 32] \<noteq> [] \<and> take (length [32, 61, 32]) (c # s) = [32, 61, 32::nat]"
    then have "61 \<in> set (take (length [32, 61, 32::nat]) (c # s))" by simp
    then have "61 \<in> set (c # s)" by (rule in_set_takeD)
    then show False using Cons.prems by simp
  qed
  have "py_split_from [32, 61, 32] acc (c # s) = py_split_from [32, 61, 32] (acc @ [c]) s"
    by (subst py_split_from.simps(2)) (simp only: ne if_False)
  then show ?case using Cons by simp
qed

lemma split_one_separator:
  "61 \<notin> set f \<Longrightarrow> 61 \<notin> set v \<Longrightarrow>
   py_split_from [32, 61, 32] acc (f @ [32, 61, 32] @ v) = [acc @ f, v]"
proof (induction f arbitrary: acc)
  case Nil
  then show ?case by (simp add: split_no_separator)
next
  case (Cons c f)
  define rest where "rest = f @ [32, 61, 32] @ v"
  have ne: "\<not> ([32, 61, 32] \<noteq> [] \<and> take (length [32, 61, 32]) (c # rest) = [32, 61, 32::nat])"
  proof
    assume "[32, 61, 32] \<noteq> [] \<and> take (length [32, 61, 32]) (c # rest) = [32, 61, 32::nat]"
    then have "take (Suc (Suc (Suc 0))) (c # rest) = [32, 61, 32::nat]" by simp
    then show False using Cons.prems by (cases f) (auto simp: rest_def)
  qed
  have "py_split_from [32, 61, 32] acc (c # rest) = py_split_from [32, 61, 32] (acc @ [c]) rest"
    by (subst py_split_from.simps(2)) (simp only: ne if_False)
  then show ?case using Cons by (simp add: rest_def)
qed

lemma py_split_query:
  "61 \<notin> set f \<Longrightarrow> 61 \<notin> set v \<Longrightarrow> py_split (asc '' = '') (f @ asc '' = '' @ v) = [f, v]"
  using split_one_separator[of f v "[]"] by (simp add: py_split_def SEP_eq)

lemma to_title_eq_sign [simp]: "to_title c = 61 \<longleftrightarrow> c = 61"
  by (auto simp: to_title_def)

lemma to_lower_eq_sign [simp]: "to_lower c = 61 \<longleftrightarrow> c = 61"
  by (auto simp: to_lower_def)

lemma title_from_eq_sign: "61 \<in> set (title_from p s) \<longleftrightarrow> 61 \<in> set s"
  by (induction s arbitrary: p) auto

lemma py_title_eq_sign: "61 \<in> set (py_title s) \<longleftrightarrow> 61 \<in> set s"
  by (simp add: py_title_def title_from_eq_sign)

lemma set_py_strip: "set (py_strip s) \<subseteq> set s"
proof -
  have "set (py_rstrip t) \<subseteq> set t" for t
    using set_dropWhileD[of _ is_space "rev t"] by (auto simp: py_rstrip_def)
  moreover have "set (py_lstrip s) \<subseteq> set s"
    using set_dropWhileD[of _ is_space s] by (auto simp: py_lstrip_def)
  ultimately show ?thesis unfolding py_strip_def by blast
qed

lemma field_title: "py_strip (py_lower (asc ''title'')) = asc ''title''"
  by (simp add: asc_def py_lower_def to_lower_def strip_defs)

lemma field_author: "py_strip (py_lower (asc ''author'')) = asc ''author''"
  by (simp add: asc_def py_lower_def to_lower_def strip_defs)

lemma field_year: "py_strip (py_lower (asc ''year'')) = asc ''year''"
  by (simp add: asc_def py_lower_def to_lower_def strip_defs)

lemma no_eq_sign_in_fields:
  "61 \<notin> set (asc ''title'')" "61 \<notin> set (asc ''author'')" "61 \<notin> set (asc ''year'')"
  by (simp_all add: asc_def)

lemma book_get_fields:
  "book_get b (asc ''title'') = Some (PStr (title b))"
  "book_get b (asc ''author'') = Some (PStr (author b))"
  "book_get b (asc ''year'') = Some (PInt (year b))"
  by (simp_all add: book_get_def asc_def)

lemma search_by_title:
  "61 \<notin> set v \<Longrightarrow>
   search_books_by bs (asc ''title'' @ asc '' = '' @ v) flag =
     (if filter (\<lambda>b. title b = py_strip (py_title v)) bs \<noteq> []
      then Inr (filter (\<lambda>b. title b = py_strip (py_title v)) bs)
      else if flag then Inr [] else Inl NotFoundInTheLibrary)"
  using py_split_query[OF no_eq_sign_in_fields(1), of v]
  by (simp add: search_books_by_def field_title book_get_fields Let_def)

lemma search_by_author:
  "61 \<notin> set v \<Longrightarrow>
   search_books_by bs (asc ''author'' @ asc '' = '' @ v) flag =
     (if filter (\<lambda>b. author b = py_strip (py_title v)) bs \<noteq> []
      then Inr (filter (\<lambda>b. author b = py_strip (py_title v)) bs)
      else if flag then Inr [] else Inl NotFoundInTheLibrary)"
  using py_split_query[OF no_eq_sign_in_fields(2), of v]
  by (simp add: search_books_by_def field_author book_get_fields Let_def)

lemma search_by_year:
  "61 \<notin> set v \<Longrightarrow>
   search_books_by bs (asc ''year'' @ asc '' = '' @ v) flag =
     (if flag then Inr [] else Inl NotFoundInTheLibrary)"
  using py_split_query[OF no_eq_sign_in_fields(3), of v]
  by (simp add: search_books_by_def field_year book_get_fields Let_def)

section \<open>Properties of the matcher\<close>

declare ends.simps(7) [simp del]

lemma ends_consumed:
  "e \<in> set (ends n r s) \<Longrightarrow> \<exists>p. s = p @ e \<and> list_all (admits r) p"
proof (induction n r s arbitrary: e rule: ends.induct)
  case (4 n items s)
  then show ?case by (cases s) (auto split: if_splits)
next
  case (5 n r1 r2 s)
  from "5.prems" obtain m where m: "m \<in> set (ends n r1 s)" and e: "e \<in> set (ends n r2 m)"
    by auto
  from "5.IH"(1)[OF m] obtain p where p: "s = p @ m" "list_all (admits r1) p" by blast
  from "5.IH"(2)[OF m e] obtain q where q: "m = q @ e" "list_all (admits r2) q" by blast
  have "s = (p @ q) @ e" using p q by simp
  moreover have "list_all (admits (Seq r1 r2)) (p @ q)"
    using p q by (auto simp: list_all_iff)
  ultimately show ?case by blast
next
  case (6 n r1 r2 s)
  from "6.prems" consider "e \<in> set (ends n r1 s)" | "e \<in> set (ends n r2 s)" by auto
  then show ?case
  proof cases
    case 1
    from "6.IH"(1)[OF 1] obtain p where "s = p @ e" "list_all (admits r1) p" by blast
    then have "s = p @ e \<and> list_all (admits (Alt r1 r2)) p" by (auto simp: list_all_iff)
    then show ?thesis by blast
  next
    case 2
    from "6.IH"(2)[OF 2] obtain p where "s = p @ e" "list_all (admits r2) p" by blast
    then have "s = p @ e \<and> list_all (admits (Alt r1 r2)) p" by (auto simp: list_all_iff)
    then show ?thesis by blast
  qed
next
  case (7 n r s)
  from "7.prems" have "e = s \<or> (\<exists>m\<in>set (ends n r s). length m < length s \<and> e \<in> set (ends n (Star r) m))"
    by (subst (asm) ends.simps(7)) (auto split: if_splits)
  then show ?case
  proof
    assume "e = s"
    then show ?thesis by simp
  next
    assume "\<exists>m\<in>set (ends n r s). length m < length s \<and> e \<in> set (ends n (Star r) m)"
    then obtain m where m: "m \<in> set (ends n r s)" "length m < length s"
      "e \<in> set (ends n (Star r) m)" by blast
    from "7.IH"(1)[OF m(1)] obtain p where p: "s = p @ m" "list_all (admits r) p" by blast
    from "7.IH"(2)[OF m(1) m(2) m(3)] obtain q where q: "m = q @ e" "list_all (admits (Star r)) q"
      by blast
    have "s = (p @ q) @ e" using p q by simp
    moreover have "list_all (admits (Star r)) (p @ q)"
      using p q by (auto simp: list_all_iff)
    ultimately show ?thesis by blast
  qed
next
  case (1 n s)
  then show ?case by simp
next
  case (2 n s)
  then show ?case by (simp split: if_splits)
next
  case (3 n s)
  then show ?case by (simp split: if_splits)
qed

lemma ends_suffix: "e \<in> set (ends n r s) \<Longrightarrow> length e \<le> length s"
proof -
  assume "e \<in> set (ends n r s)"
  from ends_consumed[OF this] obtain p where "s = p @ e" by blast
  then show ?thesis by simp
qed

lemma search_from_length: "search_from r n s = Some g \<Longrightarrow> length g \<le> length s"
proof (induction s arbitrary: g)
  case Nil
  then show ?case by (auto split: list.splits)
next
  case (Cons c s)
  show ?case
  proof (cases "ends n r (c # s)")
    case Nil
    then have "search_from r n s = Some g" using Cons.prems by simp
    from Cons.IH[OF this] show ?thesis by simp
  next
    case (Cons e es)
    then have "g = take (length (c # s) - length e) (c # s)" using Cons.prems by simp
    then show ?thesis by simp
  qed
qed

text \<open>\<open>re.search\<close> gives back the whole subject exactly when the first match found from
  its start leaves nothing.\<close>

lemma re_search_whole:
  "re_search r s = Some s \<longleftrightarrow> (\<exists>es. ends (length s) r s = [] # es)"
proof (cases "ends (length s) r s")
  case Nil
  have "re_search r s \<noteq> Some s"
  proof (cases s)
    case Nil
    then show ?thesis using \<open>ends (length s) r s = []\<close> by (simp add: re_search_def)
  next
    case (Cons c cs)
    show ?thesis
    proof
      assume "re_search r s = Some s"
      then have "search_from r (length s) cs = Some s"
        using Cons \<open>ends (length s) r s = []\<close> by (simp add: re_search_def)
      from search_from_length[OF this] show False using Cons by simp
    qed
  qed
  then show ?thesis using Nil by simp
next
  case (Cons e es)
  then have "e \<in> set (ends (length s) r s)" by simp
  then have le: "length e \<le> length s" by (rule ends_suffix)
  have "re_search r s = Some (take (length s - length e) s)"
    using Cons by (simp add: re_search_def)
  moreover have "take (length s - length e) s = s \<longleftrightarrow> e = []"
  proof
    assume "take (length s - length e) s = s"
    then have "length (take (length s - length e) s) = length s" by simp
    then have "min (length s - length e) (length s) = length s" by simp
    then have "length e = 0" using le by arith
    then show "e = []" by simp
  qed simp
  ultimately show ?thesis using Cons by simp
qed

lemma re_search_whole_admits:
  assumes "re_search r s = Some s"
  shows "list_all (admits r) s"
proof -
  from assms obtain es where "ends (length s) r s = [] # es"
    using re_search_whole by blast
  then have "[] \<in> set (ends (length s) r s)" by simp
  from ends_consumed[OF this] show ?thesis by simp
qed

section \<open>The author pattern\<close>

lemma ends_Cls:
  "set (ends n (Cls items) s) = {cs. \<exists>c. s = c # cs \<and> in_class items c}"
  by (cases s) auto

lemma ends_Star_set:
  "set (ends n (Star r) s) =
     insert s (\<Union>m \<in> {m \<in> set (ends n r s). length m < length s}. set (ends n (Star r) m))"
  by (subst ends.simps(7)) auto

lemma ends_Star_Cls:
  "set (ends n (Star (Cls items)) s) =
     {drop k s |k. k \<le> length (takeWhile (in_class items) s)}"
proof (induction s)
  case Nil
  show ?case by (subst ends_Star_set) (simp add: ends_Cls)
next
  case (Cons c cs)
  show ?case
  proof (cases "in_class items c")
    case False
    then show ?thesis by (subst ends_Star_set) (simp add: ends_Cls)
  next
    case True
    have "set (ends n (Star (Cls items)) (c # cs)) =
          insert (c # cs) {drop k cs |k. k \<le> length (takeWhile (in_class items) cs)}"
    proof -
      have "{m \<in> set (ends n (Cls items) (c # cs)). length m < length (c # cs)} = {cs}"
        using True by (auto simp: ends_Cls)
      then show ?thesis
        by (subst ends_Star_set) (simp only: Cons.IH UN_insert UN_empty Un_empty_right)
    qed
    also have "\<dots> = {drop k (c # cs) |k. k \<le> length (takeWhile (in_class items) (c # cs))}"
    proof (intro set_eqI iffI)
      fix e assume "e \<in> insert (c # cs) {drop k cs |k. k \<le> length (takeWhile (in_class items) cs)}"
      then consider "e = drop 0 (c # cs)"
        | k where "e = drop (Suc k) (c # cs)" "k \<le> length (takeWhile (in_class items) cs)"
        by auto
      then show "e \<in> {drop k (c # cs) |k. k \<le> length (takeWhile (in_class items) (c # cs))}"
        using True by cases (auto intro: exI[of _ 0], force)
    next
      fix e assume "e \<in> {drop k (c # cs) |k. k \<le> length (takeWhile (in_class items) (c # cs))}"
      then obtain k where k: "e = drop k (c # cs)" "k \<le> Suc (length (takeWhile (in_class items) cs))"
        using True by auto
      then show "e \<in> insert (c # cs) {drop k cs |k. k \<le> length (takeWhile (in_class items) cs)}"
        by (cases k) auto
    qed
    finally show ?thesis .
  qed
qed

lemma ends_rep_min_Cls:
  "set (ends n (rep_min m (Cls items)) s) =
     {drop k s |k. m \<le> k \<and> k \<le> length (takeWhile (in_class items) s)}"
proof (induction m arbitrary: s)
  case 0
  show ?case by (simp add: ends_Star_Cls)
next
  case (Suc m)
  show ?case
  proof (cases s)
    case Nil
    then show ?thesis by simp
  next
    case (Cons c cs)
    show ?thesis
    proof (cases "in_class items c")
      case False
      then show ?thesis using Cons by simp
    next
      case True
      have "set (ends n (rep_min (Suc m) (Cls items)) s) =
            {drop k cs |k. m \<le> k \<and> k \<le> length (takeWhile (in_class items) cs)}"
        using True Cons Suc.IH by simp
      also have "\<dots> = {drop k s |k. Suc m \<le> k \<and> k \<le> length (takeWhile (in_class items) s)}"
      proof (intro set_eqI iffI)
        fix e assume "e \<in> {drop k cs |k. m \<le> k \<and> k \<le> length (takeWhile (in_class items) cs)}"
        then obtain k where "e = drop (Suc k) s" "Suc m \<le> Suc k"
          "Suc k \<le> length (takeWhile (in_class items) s)"
          using True Cons by auto
        then show "e \<in> {drop k s |k. Suc m \<le> k \<and> k \<le> length (takeWhile (in_class items) s)}"
          by blast
      next
        fix e assume "e \<in> {drop k s |k. Suc m \<le> k \<and> k \<le> length (takeWhile (in_class items) s)}"
        then obtain k where k: "e = drop k s" "Suc m \<le> k" "k \<le> Suc (length (takeWhile (in_class items) cs))"
          using True Cons by auto
        then obtain j where "k = Suc j" by (cases k) auto
        then show "e \<in> {drop k cs |k. m \<le> k \<and> k \<le> length (takeWhile (in_class items) cs)}"
          using k Cons by auto
      qed
      finally show ?thesis .
    qed
  qed
qed

lemma rep_plus_is_rep_min: "rep_plus r = rep_min 1 r"
  by (simp add: rep_plus_def)

lemma sep_not_letter: "is_author_sep c \<Longrightarrow> \<not> is_letter c"
  by (auto simp: is_author_sep_def is_letter_def in_class_def AUTHOR_SEP_def LETTERS_def is_space_def)

lemma ends_group:
  "set (ends n (Seq (Cls AUTHOR_SEP) (rep_plus (Cls LETTERS))) s) =
     {drop (Suc k) s |k. s \<noteq> [] \<and> is_author_sep (hd s) \<and> 1 \<le> k \<and>
        k \<le> length (takeWhile is_letter (tl s))}"
proof (cases s)
  case Nil
  then show ?thesis by simp
next
  case (Cons c cs)
  have l: "in_class LETTERS = is_letter" by (auto simp: is_letter_def)
  have plus: "set (ends n (rep_plus (Cls LETTERS)) m) =
      {drop k m |k. 1 \<le> k \<and> k \<le> length (takeWhile is_letter m)}" for m
    unfolding rep_plus_is_rep_min ends_rep_min_Cls l ..
  have "set (ends n (Seq (Cls AUTHOR_SEP) (rep_plus (Cls LETTERS))) s) =
        (\<Union>m\<in>set (ends n (Cls AUTHOR_SEP) s). set (ends n (rep_plus (Cls LETTERS)) m))"
    by simp
  also have "\<dots> = (if is_author_sep c then {drop k cs |k. 1 \<le> k \<and> k \<le> length (takeWhile is_letter cs)} else {})"
    unfolding plus using Cons by (simp add: is_author_sep_def)
  also have "\<dots> = {drop (Suc k) s |k. s \<noteq> [] \<and> is_author_sep (hd s) \<and> 1 \<le> k \<and>
        k \<le> length (takeWhile is_letter (tl s))}"
    using Cons by simp
  finally show ?thesis .
qed

lemma groups_head:
  "letter_groups is_author_sep m p \<Longrightarrow> takeWhile is_letter p = [] \<and> dropWhile is_letter p = p"
  by (cases p) (auto simp: sep_not_letter)

lemma groups_extend:
  assumes "is_author_sep c" "w \<noteq> []" "list_all is_letter w" "letter_groups is_author_sep 1 p"
  shows "letter_groups is_author_sep 1 (c # w @ p)"
proof -
  have "takeWhile is_letter (w @ p) = w" "dropWhile is_letter (w @ p) = p"
    using assms(3) groups_head[OF assms(4)]
    by (simp_all add: takeWhile_append2 dropWhile_append2 list_all_iff)
  then show ?thesis using assms by (cases w) auto
qed

lemma group_then_groups:
  assumes "m \<in> set (ends n (Seq (Cls AUTHOR_SEP) (rep_plus (Cls LETTERS))) s)"
    and "m = q @ e" and "letter_groups is_author_sep 1 q"
  shows "\<exists>p. p \<noteq> [] \<and> s = p @ e \<and> letter_groups is_author_sep 1 p"
proof -
  from assms(1) obtain k where k: "m = drop (Suc k) s" "s \<noteq> []" "is_author_sep (hd s)"
    "1 \<le> k" "k \<le> length (takeWhile is_letter (tl s))"
    unfolding ends_group by blast
  obtain c cs where s: "s = c # cs" using k(2) by (cases s) auto
  define w where "w = take k cs"
  have kl: "k \<le> length cs" using k(5) s length_takeWhile_le[of is_letter cs] by simp
  have w: "w \<noteq> []" using k(4) kl by (auto simp: w_def)
  have "take k (takeWhile is_letter cs) = take k (take (length (takeWhile is_letter cs)) cs)"
    using takeWhile_eq_take[of is_letter cs] by simp
  also have "\<dots> = take k cs" using k(5) s by (simp add: min_def)
  finally have "w = take k (takeWhile is_letter cs)" by (simp add: w_def)
  then have "set w \<subseteq> set (takeWhile is_letter cs)" by (metis set_take_subset)
  then have lw: "list_all is_letter w"
    using set_takeWhileD[of _ is_letter cs] by (auto simp: list_all_iff)
  have "s = (c # w @ q) @ e"
    using s k(1) assms(2) by (simp add: w_def)
  moreover have "letter_groups is_author_sep 1 (c # w @ q)"
    using groups_extend[OF _ w lw assms(3)] k(3) s by simp
  ultimately show ?thesis by blast
qed

lemma groups_then_group:
  assumes "p \<noteq> []" "letter_groups is_author_sep 1 p"
  shows "\<exists>m\<in>set (ends n (Seq (Cls AUTHOR_SEP) (rep_plus (Cls LETTERS))) (p @ e)).
           \<exists>q. m = q @ e \<and> letter_groups is_author_sep 1 q \<and> length m < length (p @ e)"
proof -
  obtain c cs where p: "p = c # cs" using assms(1) by (cases p) auto
  define w where "w = takeWhile is_letter cs"
  define q where "q = dropWhile is_letter cs"
  have c: "is_author_sep c" and w1: "1 \<le> length w" and q: "letter_groups is_author_sep 1 q"
    using assms(2) p by (simp_all add: w_def q_def)
  have cs: "cs = w @ q" by (simp add: w_def q_def)
  have "takeWhile is_letter (cs @ e) = w @ takeWhile is_letter (q @ e)"
    unfolding cs append_assoc
    by (rule takeWhile_append2) (use set_takeWhileD[of _ is_letter cs] in \<open>auto simp: w_def\<close>)
  then have le: "length w \<le> length (takeWhile is_letter (tl (p @ e)))"
    using p by simp
  have "drop (Suc (length w)) (p @ e) = q @ e" using p cs by simp
  then have "q @ e \<in> set (ends n (Seq (Cls AUTHOR_SEP) (rep_plus (Cls LETTERS))) (p @ e))"
    unfolding ends_group using p c w1 le by force
  moreover have "length (q @ e) < length (p @ e)" using p cs by simp
  ultimately show ?thesis using q by blast
qed

text \<open>The groups after the first one: what a star of groups can leave.\<close>

lemma ends_Star_groups:
  "e \<in> set (ends n (Star (Seq (Cls AUTHOR_SEP) (rep_plus (Cls LETTERS)))) s) \<longleftrightarrow>
   (\<exists>p. s = p @ e \<and> letter_groups is_author_sep 1 p)"
proof (induction s rule: length_induct)
  case (1 s)
  let ?G = "Seq (Cls AUTHOR_SEP) (rep_plus (Cls LETTERS))"
  show ?case
  proof
    assume "e \<in> set (ends n (Star ?G) s)"
    then consider "e = s"
      | m where "m \<in> set (ends n ?G s)" "length m < length s" "e \<in> set (ends n (Star ?G) m)"
      by (subst (asm) ends_Star_set) auto
    then show "\<exists>p. s = p @ e \<and> letter_groups is_author_sep 1 p"
    proof cases
      case 1
      then have "s = [] @ e \<and> letter_groups is_author_sep 1 []" by simp
      then show ?thesis by blast
    next
      case 2
      from "1.IH" 2(2,3) obtain q where "m = q @ e" "letter_groups is_author_sep 1 q" by blast
      from group_then_groups[OF 2(1) this] show ?thesis by blast
    qed
  next
    assume "\<exists>p. s = p @ e \<and> letter_groups is_author_sep 1 p"
    then obtain p where p: "s = p @ e" "letter_groups is_author_sep 1 p" by blast
    show "e \<in> set (ends n (Star ?G) s)"
    proof (cases "p = []")
      case True
      then show ?thesis using p by (subst ends_Star_set) simp
    next
      case False
      from groups_then_group[OF False p(2), of n e] obtain m q where
        m: "m \<in> set (ends n ?G s)" "m = q @ e" "letter_groups is_author_sep 1 q"
           "length m < length s"
        using p(1) by blast
      then have "e \<in> set (ends n (Star ?G) m)" using "1.IH" by blast
      then show ?thesis using m by (subst ends_Star_set) auto
    qed
  qed
qed

lemma ends_plus_groups:
  "e \<in> set (ends n (rep_plus (Seq (Cls AUTHOR_SEP) (rep_plus (Cls LETTERS)))) s) \<longleftrightarrow>
   (\<exists>p. p \<noteq> [] \<and> s = p @ e \<and> letter_groups is_author_sep 1 p)"
proof
  let ?G = "Seq (Cls AUTHOR_SEP) (rep_plus (Cls LETTERS))"
  assume "e \<in> set (ends n (rep_plus ?G) s)"
  then obtain m where m: "m \<in> set (ends n ?G s)" "e \<in> set (ends n (Star ?G) m)"
    unfolding rep_plus_def[of ?G] by auto
  from m(2) obtain q where "m = q @ e" "letter_groups is_author_sep 1 q"
    unfolding ends_Star_groups by blast
  from group_then_groups[OF m(1) this]
  show "\<exists>p. p \<noteq> [] \<and> s = p @ e \<and> letter_groups is_author_sep 1 p" .
next
  let ?G = "Seq (Cls AUTHOR_SEP) (rep_plus (Cls LETTERS))"
  assume "\<exists>p. p \<noteq> [] \<and> s = p @ e \<and> letter_groups is_author_sep 1 p"
  then obtain p where p: "p \<noteq> []" "s = p @ e" "letter_groups is_author_sep 1 p" by blast
  from groups_then_group[OF p(1) p(3), of n e] obtain m q where
    m: "m \<in> set (ends n ?G s)" "m = q @ e" "letter_groups is_author_sep 1 q"
    using p(2) by blast
  then have "e \<in> set (ends n (Star ?G) m)" unfolding ends_Star_groups by blast
  then show "e \<in> set (ends n (rep_plus ?G) s)"
    using m(1) unfolding rep_plus_def[of ?G] by auto
qed

lemma ends_Seq_set: "set (ends n (Seq r1 r2) s) = (\<Union>m\<in>set (ends n r1 s). set (ends n r2 m))"
  by simp

lemma ends_Bol_start: "set (ends (length a) Bol a) = {a}"
  by simp

lemma ends_Eol_set: "e \<in> set (ends n Eol m) \<longleftrightarrow> e = m \<and> (m = [] \<or> m = [10])"
  by simp

lemma ends_Alt_set: "set (ends n (Alt r1 r2) s) = set (ends n r1 s) \<union> set (ends n r2 s)"
  by simp

lemma anchored_ends:
  "e \<in> set (ends (length a) (Seq Bol (Seq r Eol)) a) \<longleftrightarrow>
   e \<in> set (ends (length a) r a) \<and> (e = [] \<or> e = [10])"
  unfolding ends_Seq_set ends_Bol_start by (auto simp only: ends_Eol_set UN_iff singleton_iff)

lemma anchored_ends2:
  "e \<in> set (ends (length a) (Seq Bol (Seq r1 (Seq r2 Eol))) a) \<longleftrightarrow>
   (\<exists>m\<in>set (ends (length a) r1 a). e \<in> set (ends (length a) r2 m)) \<and> (e = [] \<or> e = [10])"
  unfolding ends_Seq_set ends_Bol_start by (auto simp only: ends_Eol_set UN_iff singleton_iff)

lemma letters_class: "in_class LETTERS = is_letter"
  by (auto simp: is_letter_def)

lemma ends_letters_min:
  "m \<in> set (ends n (rep_min j (Cls LETTERS)) s) \<longleftrightarrow>
   (\<exists>k. m = drop k s \<and> j \<le> k \<and> k \<le> length (takeWhile is_letter s))"
  unfolding ends_rep_min_Cls letters_class by blast

lemma author_regex_ends:
  "e \<in> set (ends (length a) author_regex a) \<longleftrightarrow>
   (e = [] \<or> e = [10]) \<and>
   ((\<exists>k p. 2 \<le> k \<and> k \<le> length (takeWhile is_letter a) \<and> p \<noteq> [] \<and>
        drop k a = p @ e \<and> letter_groups is_author_sep 1 p) \<or>
    (\<exists>k. 5 \<le> k \<and> k \<le> length (takeWhile is_letter a) \<and> drop k a = e))"
proof -
  have A: "(\<exists>m. m \<in> set (ends (length a) (rep_min 2 (Cls LETTERS)) a) \<and>
          e \<in> set (ends (length a) (rep_plus (Seq (Cls AUTHOR_SEP) (rep_plus (Cls LETTERS)))) m)) \<longleftrightarrow>
     (\<exists>k p. 2 \<le> k \<and> k \<le> length (takeWhile is_letter a) \<and> p \<noteq> [] \<and>
        drop k a = p @ e \<and> letter_groups is_author_sep 1 p)"
    unfolding ends_letters_min ends_plus_groups by auto
  have B: "e \<in> set (ends (length a) (rep_min 5 (Cls LETTERS)) a) \<longleftrightarrow>
     (\<exists>k. 5 \<le> k \<and> k \<le> length (takeWhile is_letter a) \<and> drop k a = e)"
    unfolding ends_letters_min by auto
  show ?thesis
    unfolding author_regex_def ends_Alt_set Un_iff anchored_ends anchored_ends2 Bex_def A B
    by (rule iffI; elim disjE conjE; simp)
qed

lemma groups_last_letter:
  "letter_groups is_author_sep m p \<Longrightarrow> p \<noteq> [] \<Longrightarrow> 1 \<le> m \<Longrightarrow> is_letter (last p)"
proof (induction "is_author_sep" m p rule: letter_groups.induct)
  case (1 m)
  then show ?case by simp
next
  case (2 m c cs)
  define w where "w = takeWhile is_letter cs"
  define q where "q = dropWhile is_letter cs"
  have cs: "cs = w @ q" by (simp add: w_def q_def)
  have w: "w \<noteq> []" using "2.prems" by (auto simp: w_def)
  have q: "letter_groups is_author_sep m q" using "2.prems" by (simp add: q_def)
  show ?case
  proof (cases "q = []")
    case True
    then have "last (c # cs) = last w" using cs w by simp
    moreover have "last w \<in> set (takeWhile is_letter cs)" using w by (simp add: w_def)
    ultimately show ?thesis using set_takeWhileD by metis
  next
    case False
    then have "last (c # cs) = last q" using cs by simp
    moreover have "is_letter (last q)"
      using "2.hyps"[OF q[unfolded q_def] False[unfolded q_def] "2.prems"(3)]
      by (simp add: q_def)
    ultimately show ?thesis by simp
  qed
qed

lemma newline_not_letter: "\<not> is_letter 10"
  by (simp add: is_letter_def in_class_def LETTERS_def)

lemma author_shape_last: "author_shape a \<Longrightarrow> a \<noteq> [] \<and> is_letter (last a)"
  unfolding author_shape_def name_shape_def
proof (elim disjE conjE)
  assume "5 \<le> length a" "list_all is_letter a"
  then have "a \<noteq> []" by auto
  then show "a \<noteq> [] \<and> is_letter (last a)"
    using \<open>list_all is_letter a\<close> last_in_set[of a] by (auto simp: list_all_iff)
next
  assume q: "dropWhile is_letter a \<noteq> []" "letter_groups is_author_sep 1 (dropWhile is_letter a)"
  have "a = takeWhile is_letter a @ dropWhile is_letter a" by simp
  then have "last a = last (dropWhile is_letter a)" using q(1) by (metis last_appendR)
  then show "a \<noteq> [] \<and> is_letter (last a)"
    using groups_last_letter[OF q(2) q(1)] q(1) by auto
qed

lemma all_letters_prefix:
  "length (takeWhile is_letter a) = length a \<longleftrightarrow> list_all is_letter a"
proof
  assume "length (takeWhile is_letter a) = length a"
  then have "takeWhile is_letter a = a" using takeWhile_eq_take[of is_letter a] by simp
  then have "\<forall>x\<in>set a. is_letter x" by (simp only: takeWhile_eq_all_conv)
  then show "list_all is_letter a" by (simp add: list_all_iff)
next
  assume "list_all is_letter a"
  then have "\<forall>x\<in>set a. is_letter x" by (simp add: list_all_iff)
  then have "takeWhile is_letter a = a" by (simp only: takeWhile_eq_all_conv)
  then show "length (takeWhile is_letter a) = length a" by (rule arg_cong)
qed

lemma author_whole_match_iff: "[] \<in> set (ends (length a) author_regex a) \<longleftrightarrow> author_shape a"
proof -
  let ?n = "length (takeWhile is_letter a)"
  have le: "?n \<le> length a" by (rule length_takeWhile_le)
  have A: "(\<exists>k p. 2 \<le> k \<and> k \<le> ?n \<and> p \<noteq> [] \<and> drop k a = p @ [] \<and>
              letter_groups is_author_sep 1 p) \<longleftrightarrow>
           (2 \<le> ?n \<and> dropWhile is_letter a \<noteq> [] \<and>
              letter_groups is_author_sep 1 (dropWhile is_letter a))"
  proof
    assume "\<exists>k p. 2 \<le> k \<and> k \<le> ?n \<and> p \<noteq> [] \<and> drop k a = p @ [] \<and>
              letter_groups is_author_sep 1 p"
    then obtain k p where "2 \<le> k \<and> k \<le> ?n \<and> p \<noteq> [] \<and> drop k a = p @ [] \<and>
              letter_groups is_author_sep 1 p" by blast
    then have k: "2 \<le> k" "k \<le> ?n" "p \<noteq> []" "drop k a = p"
      "letter_groups is_author_sep 1 p" by simp_all
    have "\<not> k < ?n"
    proof
      assume lt: "k < ?n"
      then have "is_letter (takeWhile is_letter a ! k)"
        using nth_mem[OF lt] set_takeWhileD by metis
      then have "is_letter (a ! k)" using lt by (simp add: takeWhile_nth)
      moreover have "hd (drop k a) = a ! k" using lt le by (simp add: hd_drop_conv_nth)
      moreover have "is_author_sep (hd p)" using k(3,5) by (cases p) auto
      ultimately show False using k(4) sep_not_letter by auto
    qed
    then have "k = ?n" using k(2) by simp
    then have "p = dropWhile is_letter a" using k(4) by (simp add: dropWhile_eq_drop)
    then show "2 \<le> ?n \<and> dropWhile is_letter a \<noteq> [] \<and>
              letter_groups is_author_sep 1 (dropWhile is_letter a)"
      using k \<open>k = ?n\<close> by auto
  next
    assume "2 \<le> ?n \<and> dropWhile is_letter a \<noteq> [] \<and>
              letter_groups is_author_sep 1 (dropWhile is_letter a)"
    then have "2 \<le> ?n \<and> ?n \<le> ?n \<and> dropWhile is_letter a \<noteq> [] \<and>
        drop ?n a = dropWhile is_letter a @ [] \<and>
        letter_groups is_author_sep 1 (dropWhile is_letter a)"
      by (simp add: dropWhile_eq_drop)
    then show "\<exists>k p. 2 \<le> k \<and> k \<le> ?n \<and> p \<noteq> [] \<and> drop k a = p @ [] \<and>
              letter_groups is_author_sep 1 p" by blast
  qed
  have B: "(\<exists>k. 5 \<le> k \<and> k \<le> ?n \<and> drop k a = []) \<longleftrightarrow> (5 \<le> length a \<and> list_all is_letter a)"
  proof
    assume "\<exists>k. 5 \<le> k \<and> k \<le> ?n \<and> drop k a = []"
    then obtain k where "5 \<le> k" "k \<le> ?n" "length a \<le> k" by auto
    then have "5 \<le> length a \<and> ?n = length a" using le by linarith
    then show "5 \<le> length a \<and> list_all is_letter a" using all_letters_prefix by blast
  next
    assume "5 \<le> length a \<and> list_all is_letter a"
    then have "5 \<le> length a \<and> length a \<le> ?n \<and> drop (length a) a = []"
      using all_letters_prefix[of a] by simp
    then show "\<exists>k. 5 \<le> k \<and> k \<le> ?n \<and> drop k a = []" by blast
  qed
  show ?thesis
    unfolding author_regex_ends A B author_shape_def name_shape_def by auto
qed

lemma author_shape_first_match:
  assumes "author_shape a" "e \<in> set (ends (length a) author_regex a)"
  shows "e = []"
proof (rule ccontr)
  assume "e \<noteq> []"
  then have e: "e = [10]" using assms(2) unfolding author_regex_ends by blast
  from ends_consumed[OF assms(2)] obtain p where "a = p @ [10]" using e by blast
  then have "last a = 10" by simp
  then show False using author_shape_last[OF assms(1)] newline_not_letter by simp
qed

text \<open>The author validator decides the shape, and normalises what it accepts.\<close>

lemma validate_author_shape:
  "validate_author a =
     (if author_shape a then Inr (py_title (py_strip a)) else Inl (ValueError BadAuthor))"
proof (cases "author_shape a")
  case True
  then have "[] \<in> set (ends (length a) author_regex a)" using author_whole_match_iff by blast
  then obtain e es where es: "ends (length a) author_regex a = e # es"
    by (cases "ends (length a) author_regex a") auto
  then have "e = []" using author_shape_first_match[OF True, of e] by simp
  then have "re_search author_regex a = Some a" using es re_search_whole by blast
  then show ?thesis using True by (simp add: validate_author_def)
next
  case False
  have "re_search author_regex a \<noteq> Some a"
  proof
    assume "re_search author_regex a = Some a"
    then obtain es where "ends (length a) author_regex a = [] # es"
      using re_search_whole by blast
    then have "[] \<in> set (ends (length a) author_regex a)" by simp
    then show False using False author_whole_match_iff by blast
  qed
  then show ?thesis using False by (auto simp: validate_author_def split: option.splits)
qed

section \<open>The author validator\<close>

lemmas class_defs = is_letter_def is_author_sep_def in_class_def LETTERS_def AUTHOR_SEP_def
  is_space_def

lemmas case_defs = py_title_def is_cased_def is_upper_def is_lower_def to_lower_def to_title_def

lemma shape_homer: "author_shape (asc ''Homer'')"
  by (simp add: author_shape_def name_shape_def asc_def class_defs)

lemma shape_ben: "\<not> author_shape (asc ''Ben'')"
  by (simp add: author_shape_def name_shape_def asc_def class_defs)

lemma shape_double_space: "\<not> author_shape (asc ''John  Doe'')"
  by (simp add: author_shape_def name_shape_def asc_def class_defs)

lemma shape_trailing: "\<not> author_shape (asc ''Smith-'')"
  by (simp add: author_shape_def name_shape_def asc_def class_defs)

lemma shape_double_hyphen: "\<not> author_shape (asc ''Jean--Pierre'')"
  by (simp add: author_shape_def name_shape_def asc_def class_defs)

lemma shape_jean: "author_shape (asc ''jean-pierre smith'')"
  by (simp add: author_shape_def name_shape_def asc_def class_defs)

lemma shape_oneil: "author_shape (asc ''Henry O'Neil'')"
  by (simp add: author_shape_def name_shape_def asc_def class_defs)

lemma shape_li_b: "author_shape (asc ''Li B'')"
  by (simp add: author_shape_def name_shape_def asc_def class_defs)

lemma norm_homer: "py_title (py_strip (asc ''Homer'')) = asc ''Homer''"
  by (simp add: asc_def strip_defs case_defs)

lemma norm_jean: "py_title (py_strip (asc ''jean-pierre smith'')) = asc ''Jean-Pierre Smith''"
  by (simp add: asc_def strip_defs case_defs)

lemma norm_oneil: "py_title (py_strip (asc ''Henry O'Neil'')) = asc ''Henry O'Neil''"
  by (simp add: asc_def strip_defs case_defs)

lemma norm_li_b: "py_title (py_strip (asc ''Li B'')) = asc ''Li B''"
  by (simp add: asc_def strip_defs case_defs)

text \<open>
  C7, as the code has it. The author validator accepts exactly the strings that are
  either a run of five or more letters and nothing else, or a first group of two or
  more letters followed by one or more groups, each of them one separator, which is an
  apostrophe, a hyphen or a white space character, and then one or more letters. So
  "Homer" is accepted, and "Ben", "John  Doe" (two spaces), "Smith-" and "Jean--Pierre"
  are rejected. What is accepted is returned stripped and title-cased.
\<close>

theorem validate_author_accepts_shape:
  "validate_author a =
     (if author_shape a then Inr (py_title (py_strip a)) else Inl (ValueError BadAuthor)) \<and>
   validate_author (asc ''Homer'') = Inr (asc ''Homer'') \<and>
   validate_author (asc ''Ben'') = Inl (ValueError BadAuthor) \<and>
   validate_author (asc ''John  Doe'') = Inl (ValueError BadAuthor) \<and>
   validate_author (asc ''Smith-'') = Inl (ValueError BadAuthor) \<and>
   validate_author (asc ''Jean--Pierre'') = Inl (ValueError BadAuthor)"
  using shape_homer shape_ben shape_double_space shape_trailing shape_double_hyphen norm_homer
  by (simp add: validate_author_shape)

theorem validate_author_accepts_shape_witness:
  "author_shape (asc ''jean-pierre smith'') \<and>
   validate_author (asc ''jean-pierre smith'') = Inr (asc ''Jean-Pierre Smith'')"
  using validate_author_accepts_shape[of "asc ''jean-pierre smith''"] shape_jean norm_jean
  by simp

text \<open>
  C7, as the specification words it, fails: the validator accepts "Henry O'Neil", where
  an apostrophe joins a group of one letter, and "Li B", whose second group has one
  letter; neither is made of groups of two or more letters joined by hyphens or spaces.
\<close>

theorem validate_author_beyond_spec_shape:
  "validate_author (asc ''Henry O'Neil'') = Inr (asc ''Henry O'Neil'') \<and>
   \<not> spec_author_shape (asc ''Henry O'Neil'') \<and>
   validate_author (asc ''Li B'') = Inr (asc ''Li B'') \<and>
   \<not> spec_author_shape (asc ''Li B'')"
proof -
  have "\<not> spec_author_shape (asc ''Henry O'Neil'')"
    by (simp add: spec_author_shape_def name_shape_def asc_def class_defs)
  moreover have "\<not> spec_author_shape (asc ''Li B'')"
    by (simp add: spec_author_shape_def name_shape_def asc_def class_defs)
  ultimately show ?thesis
    using shape_oneil shape_li_b norm_oneil norm_li_b by (simp add: validate_author_shape)
qed

section \<open>The title pattern\<close>

lemma ends_rep_exact_Cls:
  "set (ends n (rep_exact k (Cls items)) s) =
     (if k \<le> length (takeWhile (in_class items) s) then {drop k s} else {})"
proof (induction k arbitrary: s)
  case 0
  show ?case by simp
next
  case (Suc k)
  show ?case
  proof (cases s)
    case Nil
    then show ?thesis by simp
  next
    case (Cons c cs)
    then show ?thesis using Suc.IH by (simp add: ends_Seq_set ends_Cls)
  qed
qed

lemma ends_rep_upto_Cls:
  "set (ends n (rep_upto j (Cls items)) s) =
     {drop k s |k. k \<le> j \<and> k \<le> length (takeWhile (in_class items) s)}"
proof (induction j arbitrary: s)
  case 0
  show ?case by simp
next
  case (Suc j)
  show ?case
  proof (cases s)
    case Nil
    then show ?thesis by (simp add: ends_Alt_set ends_Seq_set ends_Cls)
  next
    case (Cons c cs)
    show ?thesis
    proof (cases "in_class items c")
      case False
      then show ?thesis using Cons by (simp add: ends_Alt_set ends_Seq_set ends_Cls)
    next
      case True
      have "set (ends n (rep_upto (Suc j) (Cls items)) s) =
            insert s {drop k cs |k. k \<le> j \<and> k \<le> length (takeWhile (in_class items) cs)}"
        using True Cons Suc.IH by (simp add: ends_Alt_set ends_Seq_set ends_Cls)
      also have "\<dots> = {drop k s |k. k \<le> Suc j \<and> k \<le> length (takeWhile (in_class items) s)}"
      proof (intro set_eqI iffI)
        fix e assume "e \<in> insert s {drop k cs |k. k \<le> j \<and> k \<le> length (takeWhile (in_class items) cs)}"
        then consider "e = drop 0 s"
          | k where "e = drop (Suc k) s" "Suc k \<le> Suc j"
              "Suc k \<le> length (takeWhile (in_class items) s)"
          using True Cons by auto
        then show "e \<in> {drop k s |k. k \<le> Suc j \<and> k \<le> length (takeWhile (in_class items) s)}"
        proof cases
          case 1
          then have "e = drop 0 s \<and> 0 \<le> Suc j \<and> 0 \<le> length (takeWhile (in_class items) s)" by simp
          then show ?thesis by blast
        next
          case 2
          then show ?thesis by blast
        qed
      next
        fix e assume "e \<in> {drop k s |k. k \<le> Suc j \<and> k \<le> length (takeWhile (in_class items) s)}"
        then obtain k where k: "e = drop k s" "k \<le> Suc j" "k \<le> Suc (length (takeWhile (in_class items) cs))"
          using True Cons by auto
        then show "e \<in> insert s {drop k cs |k. k \<le> j \<and> k \<le> length (takeWhile (in_class items) cs)}"
          using Cons by (cases k) auto
      qed
      finally show ?thesis .
    qed
  qed
qed

lemma ends_rep_range_Cls:
  assumes "k \<le> l"
  shows "e \<in> set (ends n (rep_range k l (Cls items)) s) \<longleftrightarrow>
     (\<exists>i. e = drop i s \<and> k \<le> i \<and> i \<le> l \<and> i \<le> length (takeWhile (in_class items) s))"
proof
  assume "e \<in> set (ends n (rep_range k l (Cls items)) s)"
  then have k: "k \<le> length (takeWhile (in_class items) s)"
    and "e \<in> set (ends n (rep_upto (l - k) (Cls items)) (drop k s))"
    unfolding rep_range_def ends_Seq_set ends_rep_exact_Cls by (auto split: if_splits)
  then obtain j where j: "e = drop j (drop k s)" "j \<le> l - k"
    "j \<le> length (takeWhile (in_class items) (drop k s))"
    unfolding ends_rep_upto_Cls by blast
  have "drop k s = drop k (takeWhile (in_class items) s) @ dropWhile (in_class items) s"
    using k by (metis takeWhile_dropWhile_id drop_append diff_is_0_eq drop0)
  moreover have "\<forall>x\<in>set (drop k (takeWhile (in_class items) s)). in_class items x"
    using set_takeWhileD in_set_dropD by metis
  ultimately have "takeWhile (in_class items) (drop k s) =
      drop k (takeWhile (in_class items) s) @ takeWhile (in_class items) (dropWhile (in_class items) s)"
    by (simp add: takeWhile_append2)
  moreover have "takeWhile (in_class items) (dropWhile (in_class items) s) = []"
    by (metis takeWhile_eq_Nil_iff hd_dropWhile)
  ultimately have "length (takeWhile (in_class items) (drop k s)) =
      length (takeWhile (in_class items) s) - k" by simp
  then have "e = drop (j + k) s \<and> k \<le> j + k \<and> j + k \<le> l \<and>
      j + k \<le> length (takeWhile (in_class items) s)"
    using j k assms by auto
  then show "\<exists>i. e = drop i s \<and> k \<le> i \<and> i \<le> l \<and> i \<le> length (takeWhile (in_class items) s)"
    by blast
next
  assume "\<exists>i. e = drop i s \<and> k \<le> i \<and> i \<le> l \<and> i \<le> length (takeWhile (in_class items) s)"
  then obtain i where i: "e = drop i s" "k \<le> i" "i \<le> l" "i \<le> length (takeWhile (in_class items) s)"
    by blast
  have k: "k \<le> length (takeWhile (in_class items) s)" using i by simp
  have "drop k s = drop k (takeWhile (in_class items) s) @ dropWhile (in_class items) s"
    using k by (metis takeWhile_dropWhile_id drop_append diff_is_0_eq drop0)
  moreover have "\<forall>x\<in>set (drop k (takeWhile (in_class items) s)). in_class items x"
    using set_takeWhileD in_set_dropD by metis
  ultimately have "takeWhile (in_class items) (drop k s) =
      drop k (takeWhile (in_class items) s) @ takeWhile (in_class items) (dropWhile (in_class items) s)"
    by (simp add: takeWhile_append2)
  then have "length (takeWhile (in_class items) s) - k \<le> length (takeWhile (in_class items) (drop k s))"
    by simp
  then have "e = drop (i - k) (drop k s) \<and> i - k \<le> l - k \<and>
      i - k \<le> length (takeWhile (in_class items) (drop k s))"
    using i by auto
  then have "e \<in> set (ends n (rep_upto (l - k) (Cls items)) (drop k s))"
    unfolding ends_rep_upto_Cls by blast
  then show "e \<in> set (ends n (rep_range k l (Cls items)) s)"
    unfolding rep_range_def ends_Seq_set ends_rep_exact_Cls using k by simp
qed

lemma all_prefix: "length (takeWhile P a) = length a \<longleftrightarrow> list_all P a"
proof
  assume "length (takeWhile P a) = length a"
  then have "takeWhile P a = a" using takeWhile_eq_take[of P a] by simp
  then have "\<forall>x\<in>set a. P x" by (simp only: takeWhile_eq_all_conv)
  then show "list_all P a" by (simp add: list_all_iff)
next
  assume "list_all P a"
  then have "\<forall>x\<in>set a. P x" by (simp add: list_all_iff)
  then have "takeWhile P a = a" by (simp only: takeWhile_eq_all_conv)
  then show "length (takeWhile P a) = length a" by (rule arg_cong)
qed

lemma drop_to_nothing:
  "(\<exists>k. j \<le> k \<and> k \<le> length (takeWhile P m) \<and> drop k m = []) \<longleftrightarrow>
   (j \<le> length m \<and> list_all P m)"
proof
  assume "\<exists>k. j \<le> k \<and> k \<le> length (takeWhile P m) \<and> drop k m = []"
  then obtain k where "j \<le> k" "k \<le> length (takeWhile P m)" "length m \<le> k" by auto
  then have "j \<le> length m \<and> length (takeWhile P m) = length m"
    using length_takeWhile_le[of P m] by linarith
  then show "j \<le> length m \<and> list_all P m" using all_prefix by blast
next
  assume "j \<le> length m \<and> list_all P m"
  then have "j \<le> length m \<and> length m \<le> length (takeWhile P m) \<and> drop (length m) m = []"
    using all_prefix[of P m] by simp
  then show "\<exists>k. j \<le> k \<and> k \<le> length (takeWhile P m) \<and> drop k m = []" by blast
qed

lemma prefix_boundary:
  assumes "k \<le> length (takeWhile P a)" "drop k a \<noteq> []" "\<not> P (hd (drop k a))"
  shows "k = length (takeWhile P a)"
proof (rule ccontr)
  assume "k \<noteq> length (takeWhile P a)"
  then have lt: "k < length (takeWhile P a)" using assms(1) by simp
  then have "P (takeWhile P a ! k)" using nth_mem[OF lt] set_takeWhileD by metis
  then have "P (a ! k)" using lt by (simp add: takeWhile_nth)
  moreover have "hd (drop k a) = a ! k"
    using lt length_takeWhile_le[of P a] by (simp add: hd_drop_conv_nth)
  ultimately show False using assms(3) by simp
qed

lemma decimal_class: "in_class [Decimal] = is_decimal"
  by (auto simp: in_class_def)

lemma title_char_class: "in_class (LETTERS @ [Range 48 57] @ TITLE_PUNCT) = is_title_char"
  by (auto simp: is_title_char_def)

lemma title_tail_class: "in_class (LETTERS @ TITLE_PUNCT) = is_title_tail_char"
  by (auto simp: is_title_tail_char_def)

lemma tail_char_not_decimal: "is_title_tail_char c \<Longrightarrow> \<not> is_decimal c"
  by (auto simp: is_title_tail_char_def in_class_def LETTERS_def TITLE_PUNCT_def is_decimal_def
      is_space_def)

lemma title_first_alternative:
  "[] \<in> set (ends (length t) (Seq Bol (Seq (rep_exact 2 (Cls LETTERS))
        (Seq (Star (Cls (LETTERS @ [Range 48 57] @ TITLE_PUNCT))) Eol))) t) \<longleftrightarrow>
   2 \<le> length (takeWhile is_letter t) \<and> list_all is_title_char (drop 2 t)"
proof -
  have "(\<exists>k. [] = drop k (drop 2 t) \<and> k \<le> length (takeWhile is_title_char (drop 2 t))) \<longleftrightarrow>
        list_all is_title_char (drop 2 t)"
    using drop_to_nothing[of 0 is_title_char "drop 2 t"] by auto
  then show ?thesis
    unfolding anchored_ends2 ends_rep_exact_Cls ends_Star_Cls letters_class title_char_class
    by (auto split: if_splits)
qed

lemma title_second_alternative:
  "[] \<in> set (ends (length t) (Seq Bol (Seq (rep_range 1 4 (Cls [Decimal]))
        (Seq (rep_plus (Cls (LETTERS @ TITLE_PUNCT))) Eol))) t) \<longleftrightarrow>
   1 \<le> length (takeWhile is_decimal t) \<and> length (takeWhile is_decimal t) \<le> 4 \<and>
   dropWhile is_decimal t \<noteq> [] \<and> list_all is_title_tail_char (dropWhile is_decimal t)"
proof -
  let ?d = "length (takeWhile is_decimal t)"
  have plus: "[] \<in> set (ends (length t) (rep_plus (Cls (LETTERS @ TITLE_PUNCT))) m) \<longleftrightarrow>
      (m \<noteq> [] \<and> list_all is_title_tail_char m)" for m
  proof -
    have "[] \<in> set (ends (length t) (rep_plus (Cls (LETTERS @ TITLE_PUNCT))) m) \<longleftrightarrow>
        (\<exists>k. 1 \<le> k \<and> k \<le> length (takeWhile is_title_tail_char m) \<and> drop k m = [])"
      unfolding rep_plus_is_rep_min ends_rep_min_Cls title_tail_class by auto
    then show ?thesis unfolding drop_to_nothing by (cases m) auto
  qed
  have "[] \<in> set (ends (length t) (Seq Bol (Seq (rep_range 1 4 (Cls [Decimal]))
        (Seq (rep_plus (Cls (LETTERS @ TITLE_PUNCT))) Eol))) t) \<longleftrightarrow>
     (\<exists>i. 1 \<le> i \<and> i \<le> 4 \<and> i \<le> ?d \<and> drop i t \<noteq> [] \<and> list_all is_title_tail_char (drop i t))"
  proof -
    have digits: "m \<in> set (ends (length t) (rep_range 1 4 (Cls [Decimal])) t) \<longleftrightarrow>
        (\<exists>i. m = drop i t \<and> 1 \<le> i \<and> i \<le> 4 \<and> i \<le> ?d)" for m
      using ends_rep_range_Cls[of 1 4 m "length t" "[Decimal]" t] unfolding decimal_class by simp
    show ?thesis
      unfolding anchored_ends2 Bex_def digits plus by auto
  qed
  also have "\<dots> \<longleftrightarrow> 1 \<le> ?d \<and> ?d \<le> 4 \<and>
     dropWhile is_decimal t \<noteq> [] \<and> list_all is_title_tail_char (dropWhile is_decimal t)"
  proof
    assume "\<exists>i. 1 \<le> i \<and> i \<le> 4 \<and> i \<le> ?d \<and> drop i t \<noteq> [] \<and> list_all is_title_tail_char (drop i t)"
    then obtain i where i: "1 \<le> i" "i \<le> 4" "i \<le> ?d" "drop i t \<noteq> []"
      "list_all is_title_tail_char (drop i t)" by blast
    have "is_title_tail_char (hd (drop i t))" using i(4,5) by (cases "drop i t") auto
    then have "i = ?d" using prefix_boundary[OF i(3) i(4)] tail_char_not_decimal by blast
    then show "1 \<le> ?d \<and> ?d \<le> 4 \<and>
     dropWhile is_decimal t \<noteq> [] \<and> list_all is_title_tail_char (dropWhile is_decimal t)"
      using i by (simp add: dropWhile_eq_drop)
  next
    assume "1 \<le> ?d \<and> ?d \<le> 4 \<and>
     dropWhile is_decimal t \<noteq> [] \<and> list_all is_title_tail_char (dropWhile is_decimal t)"
    then have "1 \<le> ?d \<and> ?d \<le> 4 \<and> ?d \<le> ?d \<and> drop ?d t \<noteq> [] \<and>
       list_all is_title_tail_char (drop ?d t)"
      by (simp add: dropWhile_eq_drop)
    then show "\<exists>i. 1 \<le> i \<and> i \<le> 4 \<and> i \<le> ?d \<and> drop i t \<noteq> [] \<and> list_all is_title_tail_char (drop i t)"
      by blast
  qed
  finally show ?thesis .
qed

lemma title_third_alternative:
  "[] \<in> set (ends (length t) (Seq Bol (Seq (rep_exact 4 (Cls [Decimal])) Eol)) t) \<longleftrightarrow>
   length t = 4 \<and> list_all is_decimal t"
proof -
  have "(4 \<le> length (takeWhile is_decimal t) \<and> drop 4 t = []) \<longleftrightarrow>
        (length t = 4 \<and> list_all is_decimal t)"
    using all_prefix[of is_decimal t] length_takeWhile_le[of is_decimal t] by auto
  then show ?thesis
    unfolding anchored_ends ends_rep_exact_Cls decimal_class by (auto split: if_splits)
qed

lemma title_whole_match_iff: "[] \<in> set (ends (length t) title_regex t) \<longleftrightarrow> title_shape t"
  unfolding title_regex_def ends_Alt_set Un_iff title_first_alternative
    title_second_alternative title_third_alternative title_shape_def ..

lemma title_regex_anchored:
  "e \<in> set (ends (length t) title_regex t) \<Longrightarrow> e = [] \<or> e = [10]"
  unfolding title_regex_def ends_Alt_set Un_iff anchored_ends anchored_ends2 by blast

text \<open>When every match of an anchored pattern stops at the end of the subject or just
  before a final newline, and the subject has no final newline, the first match found
  is the whole subject.\<close>

lemma whole_match_first:
  assumes "[] \<in> set (ends (length s) r s)"
    and "\<And>e. e \<in> set (ends (length s) r s) \<Longrightarrow> e = [] \<or> e = [10]"
    and "s = [] \<or> last s \<noteq> 10"
  shows "re_search r s = Some s"
proof -
  obtain e es where es: "ends (length s) r s = e # es"
    using assms(1) by (cases "ends (length s) r s") auto
  then have mem: "e \<in> set (ends (length s) r s)" by simp
  have "e \<noteq> [10]"
  proof
    assume "e = [10]"
    then obtain p where "s = p @ [10]" using ends_consumed[OF mem] by blast
    then show False using assms(3) by simp
  qed
  then have "e = []" using assms(2)[OF mem] by simp
  then show ?thesis using es re_search_whole by blast
qed

lemma validate_title_sound:
  assumes "validate_title t = Inr T"
  shows "title_shape t \<and> T = py_title (py_strip t)"
proof -
  from assms have s: "re_search title_regex t = Some t" and T: "T = py_title (py_strip t)"
    by (auto simp: validate_title_def split: option.splits if_splits)
  then obtain es where "ends (length t) title_regex t = [] # es"
    using re_search_whole by blast
  then have "[] \<in> set (ends (length t) title_regex t)" by simp
  then show ?thesis using title_whole_match_iff T by blast
qed

lemma validate_title_reject:
  "\<not> title_shape t \<Longrightarrow> validate_title t = Inl (ValueError BadTitle)"
proof -
  assume n: "\<not> title_shape t"
  have "re_search title_regex t \<noteq> Some t"
  proof
    assume "re_search title_regex t = Some t"
    then have "validate_title t = Inr (py_title (py_strip t))" by (simp add: validate_title_def)
    from validate_title_sound[OF this] show False using n by simp
  qed
  then show ?thesis by (cases "re_search title_regex t") (simp_all add: validate_title_def)
qed

lemma validate_title_accept:
  assumes "title_shape t" "t = [] \<or> last t \<noteq> 10"
  shows "validate_title t = Inr (py_title (py_strip t))"
proof -
  have "[] \<in> set (ends (length t) title_regex t)"
    using assms(1) title_whole_match_iff by blast
  then have "re_search title_regex t = Some t"
    using title_regex_anchored assms(2) by (rule whole_match_first)
  then show ?thesis by (simp add: validate_title_def)
qed

lemmas title_class_defs = is_title_char_def is_title_tail_char_def is_letter_def in_class_def
  LETTERS_def TITLE_PUNCT_def is_space_def is_decimal_def

lemma title_1984: "validate_title (asc ''1984'') = Inr (asc ''1984'')"
proof -
  have "title_shape (asc ''1984'')"
    by (simp add: title_shape_def asc_def title_class_defs)
  moreover have "last (asc ''1984'') \<noteq> 10" by (simp add: asc_def)
  moreover have "py_title (py_strip (asc ''1984'')) = asc ''1984''"
    by (simp add: asc_def strip_defs case_defs)
  ultimately show ?thesis using validate_title_accept[of "asc ''1984''"] by simp
qed

lemma title_111: "validate_title (asc ''111'') = Inl (ValueError BadTitle)"
  by (rule validate_title_reject) (simp add: title_shape_def asc_def title_class_defs)

lemma title_A: "validate_title (asc ''A'') = Inl (ValueError BadTitle)"
  by (rule validate_title_reject) (simp add: title_shape_def asc_def title_class_defs)

lemma title_Book: "validate_title (asc ''Book'') = Inr (asc ''Book'')"
proof -
  have "title_shape (asc ''Book'')"
    by (simp add: title_shape_def asc_def title_class_defs)
  moreover have "last (asc ''Book'') \<noteq> 10" by (simp add: asc_def)
  moreover have "py_title (py_strip (asc ''Book'')) = asc ''Book''"
    by (simp add: asc_def strip_defs case_defs)
  ultimately show ?thesis using validate_title_accept[of "asc ''Book''"] by simp
qed

text \<open>
  C8. The title validator accepts "1984", which is exactly four digits; it rejects
  "111", three digits with nothing after them, and "A", a single letter.
\<close>

theorem validate_title_examples:
  "validate_title (asc ''1984'') = Inr (asc ''1984'') \<and>
   validate_title (asc ''111'') = Inl (ValueError BadTitle) \<and>
   validate_title (asc ''A'') = Inl (ValueError BadTitle)"
  using title_1984 title_111 title_A by simp

section \<open>Properties of add\<close>

lemma admits_rep_min: "admits (rep_min k r) c = admits r c"
  by (induction k) auto

lemma admits_rep_exact: "admits (rep_exact k r) c \<Longrightarrow> admits r c"
  by (induction k) auto

lemma admits_rep_upto: "admits (rep_upto k r) c \<Longrightarrow> admits r c"
  by (induction k) auto

lemma admits_rep_range: "admits (rep_range k l r) c \<Longrightarrow> admits r c"
proof -
  assume "admits (rep_range k l r) c"
  then have "admits (rep_exact k r) c \<or> admits (rep_upto (l - k) r) c"
    by (simp add: rep_range_def)
  then show ?thesis
  proof
    assume "admits (rep_exact k r) c" then show ?thesis by (rule admits_rep_exact)
  next
    assume "admits (rep_upto (l - k) r) c" then show ?thesis by (rule admits_rep_upto)
  qed
qed

lemma admits_rep_plus: "admits (rep_plus r) c = admits r c"
  by (simp add: rep_plus_def)

lemma no_eq_sign_in_classes:
  "\<not> in_class LETTERS 61" "\<not> in_class AUTHOR_SEP 61" "\<not> in_class [Decimal] 61"
  "\<not> in_class (LETTERS @ TITLE_PUNCT) 61" "\<not> in_class (LETTERS @ [Range 48 57] @ TITLE_PUNCT) 61"
  by (simp_all add: in_class_def LETTERS_def AUTHOR_SEP_def TITLE_PUNCT_def is_space_def
      is_decimal_def)

lemma author_regex_no_eq_sign: "\<not> admits author_regex 61"
  by (simp add: author_regex_def admits_rep_min admits_rep_plus no_eq_sign_in_classes)

lemma title_regex_no_eq_sign: "\<not> admits title_regex 61"
proof
  assume "admits title_regex 61"
  then consider "admits (rep_exact 2 (Cls LETTERS)) 61"
    | "admits (Cls (LETTERS @ [Range 48 57] @ TITLE_PUNCT)) 61"
    | "admits (rep_range 1 4 (Cls [Decimal])) 61"
    | "admits (Cls (LETTERS @ TITLE_PUNCT)) 61"
    | "admits (rep_exact 4 (Cls [Decimal])) 61"
    unfolding title_regex_def admits.simps admits_rep_plus by blast
  then show False
  proof cases
    case 1
    from admits_rep_exact[OF this] show False using no_eq_sign_in_classes(1) by simp
  next
    case 2
    then show False using no_eq_sign_in_classes(5) by (simp only: admits.simps)
  next
    case 3
    from admits_rep_range[OF this] show False using no_eq_sign_in_classes(3) by simp
  next
    case 4
    then show False using no_eq_sign_in_classes(4) by (simp only: admits.simps)
  next
    case 5
    from admits_rep_exact[OF this] show False using no_eq_sign_in_classes(3) by simp
  qed
qed

lemma whole_match_no_eq_sign:
  assumes "re_search r s = Some s" "\<not> admits r 61"
  shows "61 \<notin> set s"
  using re_search_whole_admits[OF assms(1)] assms(2) by (auto simp: list_all_iff)

text \<open>What a validator returns is normalised, has no equals sign, and is left as it is
  by the normalisation of the search.\<close>

lemma validate_author_result:
  assumes "validate_author a = Inr A"
  shows "A = py_title (py_strip a)" "61 \<notin> set a" "61 \<notin> set A" "py_strip (py_title A) = A"
proof -
  from assms have s: "re_search author_regex a = Some a" and A: "A = py_title (py_strip a)"
    by (auto simp: validate_author_def split: option.splits if_splits)
  show "A = py_title (py_strip a)" by (rule A)
  show a: "61 \<notin> set a" using whole_match_no_eq_sign[OF s author_regex_no_eq_sign] .
  show "61 \<notin> set A" using a set_py_strip[of a] by (auto simp: A py_title_eq_sign)
  show "py_strip (py_title A) = A"
    by (simp add: A py_title_idem py_title_strip py_strip_idem)
qed

lemma validate_title_result:
  assumes "validate_title t = Inr T"
  shows "T = py_title (py_strip t)" "61 \<notin> set t" "61 \<notin> set T" "py_strip (py_title T) = T"
proof -
  from assms have s: "re_search title_regex t = Some t" and T: "T = py_title (py_strip t)"
    by (auto simp: validate_title_def split: option.splits if_splits)
  show "T = py_title (py_strip t)" by (rule T)
  show t: "61 \<notin> set t" using whole_match_no_eq_sign[OF s title_regex_no_eq_sign] .
  show "61 \<notin> set T" using t set_py_strip[of t] by (auto simp: T py_title_eq_sign)
  show "py_strip (py_title T) = T"
    by (simp add: T py_title_idem py_title_strip py_strip_idem)
qed

lemma query_text:
  "asc ''author = '' = asc ''author'' @ asc '' = ''"
  "asc ''title = '' = asc ''title'' @ asc '' = ''"
  "asc ''year = '' = asc ''year'' @ asc '' = ''"
  by (simp_all add: asc_def)

lemma same_author_search:
  assumes "validate_author a = Inr A"
  shows "search_books_by bs (asc ''author = '' @ A) True = Inr (filter (\<lambda>b. author b = A) bs)"
  using search_by_author[OF validate_author_result(3)[OF assms], of bs True]
    validate_author_result(4)[OF assms]
  by (simp add: query_text)

lemma Book_valid:
  assumes "validate_title t = Inr T" "validate_author a = Inr A" "validate_year today y = Inr Y"
  shows "Book today last_id t a y =
    Inr \<lparr>book_id = last_id + 1, title = T, author = A, year = Y, status = AVAILABLE\<rparr>"
  using assms by (simp add: Book_def)

lemma Book_result:
  assumes "Book today last_id t a y = Inr nb"
  shows "book_id nb = last_id + 1 \<and> validate_title t = Inr (title nb) \<and>
    validate_author a = Inr (author nb) \<and> validate_year today y = Inr (year nb) \<and>
    status nb = AVAILABLE"
  using assms by (auto simp: Book_def split: sum.splits)

lemma add_book_valid:
  assumes "validate_title t = Inr T" "validate_author a = Inr A" "validate_year today y = Inr Y"
  shows "add_book today bs t a y =
      (if \<exists>b\<in>set bs. author b = A \<and> title b = T \<and> year b = Y
       then Inl AlreadyInTheLibrary
       else Inr (bs @ [\<lparr>book_id = (if bs \<noteq> [] then book_id (last bs) else 0) + 1,
                        title = T, author = A, year = Y, status = AVAILABLE\<rparr>])) \<and>
    search_books_by bs (asc ''author = '' @ A) True = Inr (filter (\<lambda>b. author b = A) bs) \<and>
    (add_book today bs t a y = Inl AlreadyInTheLibrary \<longleftrightarrow>
       list_ex (\<lambda>b. title b = T \<and> year b = Y) (filter (\<lambda>b. author b = A) bs))"
proof -
  let ?nb = "\<lparr>book_id = (if bs \<noteq> [] then book_id (last bs) else 0) + 1,
              title = T, author = A, year = Y, status = AVAILABLE\<rparr>"
  let ?dup = "list_ex (\<lambda>b. (title b, year b) = (title ?nb, year ?nb)) (filter (\<lambda>b. author b = A) bs)"
  have s: "search_books_by bs (asc ''author = '' @ A) True = Inr (filter (\<lambda>b. author b = A) bs)"
    using assms(2) by (rule same_author_search)
  have B: "Book today (if bs \<noteq> [] then book_id (last bs) else 0) t a y = Inr ?nb"
    using assms by (rule Book_valid)
  have unfold: "add_book today bs t a y =
      (if ?dup then Inl AlreadyInTheLibrary else Inr (bs @ [?nb]))"
    unfolding add_book_def Let_def B using s by simp
  have l: "?dup \<longleftrightarrow> (\<exists>b\<in>set bs. author b = A \<and> title b = T \<and> year b = Y)"
    unfolding list_ex_iff by auto
  have l': "list_ex (\<lambda>b. title b = T \<and> year b = Y) (filter (\<lambda>b. author b = A) bs) \<longleftrightarrow>
        (\<exists>b\<in>set bs. author b = A \<and> title b = T \<and> year b = Y)"
    unfolding list_ex_iff by auto
  show ?thesis
  proof (cases "\<exists>b\<in>set bs. author b = A \<and> title b = T \<and> year b = Y")
    case True
    then have "add_book today bs t a y = Inl AlreadyInTheLibrary"
      using unfold l by (simp only: if_True)
    then show ?thesis using True s l' by (simp only: if_True simp_thms)
  next
    case False
    then have "add_book today bs t a y = Inr (bs @ [?nb])"
      using unfold l by (simp only: if_False)
    then show ?thesis using False s l' by (simp only: if_False simp_thms sum.distinct)
  qed
qed

text \<open>
  C4. For a valid triple, with \<open>T\<close>, \<open>A\<close>, \<open>Y\<close> its normalised values: add fails with
  \<open>AlreadyInTheLibrary\<close> exactly when some stored record has author \<open>A\<close>, title \<open>T\<close> and
  year \<open>Y\<close>, and then leaves the catalog as it was; otherwise it appends the new record.
  The check runs on the records whose author is exactly \<open>A\<close>, which the author search
  returns, and compares title and year among them.
\<close>

theorem add_book_duplicate_check:
  "validate_title t = Inr T \<Longrightarrow> validate_author a = Inr A \<Longrightarrow>
   validate_year today y = Inr Y \<Longrightarrow>
   add_book today bs t a y =
      (if \<exists>b\<in>set bs. author b = A \<and> title b = T \<and> year b = Y
       then Inl AlreadyInTheLibrary
       else Inr (bs @ [\<lparr>book_id = (if bs \<noteq> [] then book_id (last bs) else 0) + 1,
                        title = T, author = A, year = Y, status = AVAILABLE\<rparr>])) \<and>
    search_books_by bs (asc ''author = '' @ A) True = Inr (filter (\<lambda>b. author b = A) bs) \<and>
    (add_book today bs t a y = Inl AlreadyInTheLibrary \<longleftrightarrow>
       list_ex (\<lambda>b. title b = T \<and> year b = Y) (filter (\<lambda>b. author b = A) bs))"
  by (rule add_book_valid)

lemma author_Homer: "validate_author (asc ''Homer'') = Inr (asc ''Homer'')"
  using shape_homer norm_homer by (simp add: validate_author_shape)

lemma author_homer: "validate_author (asc ''homer'') = Inr (asc ''Homer'')"
proof -
  have "author_shape (asc ''homer'')"
    by (simp add: author_shape_def name_shape_def asc_def class_defs)
  moreover have "py_title (py_strip (asc ''homer'')) = asc ''Homer''"
    by (simp add: asc_def strip_defs case_defs)
  ultimately show ?thesis by (simp add: validate_author_shape)
qed

lemma title_iliad: "validate_title (asc ''iliad'') = Inr (asc ''Iliad'')"
proof -
  have "title_shape (asc ''iliad'')"
    by (simp add: title_shape_def asc_def title_class_defs)
  moreover have "last (asc ''iliad'') \<noteq> 10" by (simp add: asc_def)
  moreover have "py_title (py_strip (asc ''iliad'')) = asc ''Iliad''"
    by (simp add: asc_def strip_defs case_defs)
  ultimately show ?thesis using validate_title_accept[of "asc ''iliad''"] by simp
qed

lemma year_2000: "validate_year 2024 (PStr (asc ''2000'')) = Inr 2000"
  by (simp add: validate_year_def int_of_str_2000)

lemma year_int: "0 < n \<Longrightarrow> n \<le> today \<Longrightarrow> validate_year today (PInt n) = Inr n"
  by (simp add: validate_year_def)

theorem add_book_duplicate_check_witness:
  "validate_title (asc ''iliad'') = Inr (asc ''Iliad'') \<and>
   validate_author (asc ''homer'') = Inr (asc ''Homer'') \<and>
   validate_year 2024 (PInt 1598) = Inr 1598 \<and>
   validate_year 2024 (PInt 1599) = Inr 1599 \<and>
   add_book 2024 example_catalog (asc ''iliad'') (asc ''homer'') (PInt 1598) =
     Inl AlreadyInTheLibrary \<and>
   add_book 2024 example_catalog (asc ''iliad'') (asc ''homer'') (PInt 1599) =
     Inr (example_catalog @
       [\<lparr>book_id = 5, title = asc ''Iliad'', author = asc ''Homer'', year = 1599,
         status = AVAILABLE\<rparr>])"
proof -
  have y1: "validate_year 2024 (PInt 1598) = Inr 1598"
    and y2: "validate_year 2024 (PInt 1599) = Inr 1599"
    by (simp_all add: year_int)
  have d1: "\<exists>b\<in>set example_catalog. author b = asc ''Homer'' \<and> title b = asc ''Iliad'' \<and> year b = 1598"
    by (simp add: example_catalog_def)
  have d2: "\<not> (\<exists>b\<in>set example_catalog. author b = asc ''Homer'' \<and> title b = asc ''Iliad'' \<and> year b = 1599)"
    by (simp add: example_catalog_def)
  have l: "example_catalog \<noteq> []" "book_id (last example_catalog) = 4"
    by (simp_all add: example_catalog_def)
  have "add_book 2024 example_catalog (asc ''iliad'') (asc ''homer'') (PInt 1598) =
     Inl AlreadyInTheLibrary"
    using add_book_duplicate_check[OF title_iliad author_homer y1, of example_catalog] d1
    by (simp only: if_True)
  moreover have "add_book 2024 example_catalog (asc ''iliad'') (asc ''homer'') (PInt 1599) =
     Inr (example_catalog @
       [\<lparr>book_id = 5, title = asc ''Iliad'', author = asc ''Homer'', year = 1599,
         status = AVAILABLE\<rparr>])"
    using add_book_duplicate_check[OF title_iliad author_homer y2, of example_catalog] d2 l
    by simp
  ultimately show ?thesis using title_iliad author_homer y1 y2 by simp
qed

text \<open>After a successful add, a search by title or by author with the value that was
  typed finds the new record.\<close>

lemma add_book_result:
  assumes "add_book today bs t a y = Inr bs'"
  shows "\<exists>nb. bs' = bs @ [nb] \<and> book_id nb = (if bs \<noteq> [] then book_id (last bs) else 0) + 1 \<and>
     validate_title t = Inr (title nb) \<and> validate_author a = Inr (author nb) \<and>
     validate_year today y = Inr (year nb)"
proof -
  let ?l = "if bs \<noteq> [] then book_id (last bs) else 0"
  from assms obtain nb where nb: "Book today ?l t a y = Inr nb"
    by (cases "Book today ?l t a y") (auto simp: add_book_def Let_def)
  then have "bs' = bs @ [nb]"
    using assms by (auto simp: add_book_def Let_def split: sum.splits if_splits)
  then show ?thesis using Book_result[OF nb] by auto
qed

lemma search_after_add:
  assumes "add_book today bs t a y = Inr bs'"
  shows "\<exists>nb. nb \<in> set bs' \<and> validate_title t = Inr (title nb) \<and>
      validate_author a = Inr (author nb) \<and> validate_year today y = Inr (year nb) \<and>
      (\<exists>rs. search_books_by bs' (asc ''title = '' @ t) flag = Inr rs \<and> nb \<in> set rs) \<and>
      (\<exists>rs. search_books_by bs' (asc ''author = '' @ a) flag = Inr rs \<and> nb \<in> set rs)"
proof -
  from add_book_result[OF assms] obtain nb where nb: "bs' = bs @ [nb]"
    "validate_title t = Inr (title nb)" "validate_author a = Inr (author nb)"
    "validate_year today y = Inr (year nb)" by blast
  have vt: "title nb = py_strip (py_title t)"
    using validate_title_result(1)[OF nb(2)] by (simp add: py_title_strip)
  have va: "author nb = py_strip (py_title a)"
    using validate_author_result(1)[OF nb(3)] by (simp add: py_title_strip)
  have mt: "nb \<in> set (filter (\<lambda>b. title b = py_strip (py_title t)) bs')"
    using nb(1) vt by simp
  have ma: "nb \<in> set (filter (\<lambda>b. author b = py_strip (py_title a)) bs')"
    using nb(1) va by simp
  have mt': "filter (\<lambda>b. title b = py_strip (py_title t)) bs' \<noteq> []"
    using mt by (metis empty_iff empty_set)
  have ma': "filter (\<lambda>b. author b = py_strip (py_title a)) bs' \<noteq> []"
    using ma by (metis empty_iff empty_set)
  have "search_books_by bs' (asc ''title = '' @ t) flag =
      Inr (filter (\<lambda>b. title b = py_strip (py_title t)) bs')"
    using search_by_title[OF validate_title_result(2)[OF nb(2)], of bs' flag] mt'
    by (simp add: query_text)
  then have "\<exists>rs. search_books_by bs' (asc ''title = '' @ t) flag = Inr rs \<and> nb \<in> set rs"
    using mt by blast
  moreover have "search_books_by bs' (asc ''author = '' @ a) flag =
      Inr (filter (\<lambda>b. author b = py_strip (py_title a)) bs')"
    using search_by_author[OF validate_author_result(2)[OF nb(3)], of bs' flag] ma'
    by (simp add: query_text)
  then have "\<exists>rs. search_books_by bs' (asc ''author = '' @ a) flag = Inr rs \<and> nb \<in> set rs"
    using ma by blast
  ultimately show ?thesis using nb by auto
qed

lemma search_by_year_finds_nothing:
  "61 \<notin> set v \<Longrightarrow> search_books_by bs (asc ''year = '' @ v) False = Inl NotFoundInTheLibrary"
  using search_by_year[of v bs False] by (simp add: query_text)

lemma add_first_book:
  "add_book 2024 [] (asc ''Book'') (asc ''Homer'') (PStr (asc ''2000'')) = Inr [book_homer]"
  using add_book_valid[OF title_Book author_Homer year_2000, of "[]"]
  by (simp add: book_homer_def)

text \<open>
  C1 at a concrete input. "Book", "Homer" and "2000" are a valid triple, and adding it
  to the empty catalog stores the record with id 1 and the integer year 2000. A search
  by title and a search by author with the typed values return that record; the search
  by year with the typed value raises \<open>NotFoundInTheLibrary\<close>, because the search value
  is a string and the stored year is an integer.
\<close>

theorem search_by_year_misses_added_book:
  "add_book 2024 [] (asc ''Book'') (asc ''Homer'') (PStr (asc ''2000'')) = Inr [book_homer] \<and>
   search_books_by [book_homer] (asc ''title = Book'') False = Inr [book_homer] \<and>
   search_books_by [book_homer] (asc ''author = Homer'') False = Inr [book_homer] \<and>
   search_books_by [book_homer] (asc ''year = 2000'') False = Inl NotFoundInTheLibrary \<and>
   year book_homer = 2000"
proof -
  have e: "61 \<notin> set (asc ''Book'')" "61 \<notin> set (asc ''Homer'')" "61 \<notin> set (asc ''2000'')"
    by (simp_all add: asc_def)
  have q: "asc ''title = Book'' = asc ''title'' @ asc '' = '' @ asc ''Book''"
    "asc ''author = Homer'' = asc ''author'' @ asc '' = '' @ asc ''Homer''"
    "asc ''year = 2000'' = asc ''year = '' @ asc ''2000''"
    by (simp_all add: asc_def)
  have n: "py_strip (py_title (asc ''Book'')) = asc ''Book''"
    "py_strip (py_title (asc ''Homer'')) = asc ''Homer''"
    by (simp_all add: asc_def strip_defs case_defs)
  have "search_books_by [book_homer] (asc ''title = Book'') False = Inr [book_homer]"
    unfolding q using search_by_title[OF e(1), of "[book_homer]" False] n
    by (simp add: book_homer_def)
  moreover have "search_books_by [book_homer] (asc ''author = Homer'') False = Inr [book_homer]"
    unfolding q using search_by_author[OF e(2), of "[book_homer]" False] n
    by (simp add: book_homer_def)
  moreover have "search_books_by [book_homer] (asc ''year = 2000'') False = Inl NotFoundInTheLibrary"
    unfolding q using e(3) by (rule search_by_year_finds_nothing)
  ultimately show ?thesis using add_first_book by (simp add: book_homer_def)
qed

section \<open>The catalog invariant\<close>

lemma ids_ascending_last:
  assumes "ids_ascending bs" "b \<in> set bs"
  shows "book_id b \<le> book_id (last bs)"
proof -
  from assms(2) obtain i where i: "i < length bs" "b = bs ! i"
    by (auto simp: in_set_conv_nth)
  then have ne: "bs \<noteq> []" by auto
  show ?thesis
  proof (cases "i = length bs - 1")
    case True
    then show ?thesis using i ne by (simp add: last_conv_nth)
  next
    case False
    then have "i < length bs - 1" using i by simp
    then have "book_id (bs ! i) < book_id (bs ! (length bs - 1))"
      using ids_ascending_nth[OF assms(1), of i "length bs - 1"] ne by simp
    then show ?thesis using i ne by (simp add: last_conv_nth)
  qed
qed

lemma ids_ascending_append:
  assumes "ids_ascending bs" "book_id nb = (if bs \<noteq> [] then book_id (last bs) else 0) + 1"
  shows "ids_ascending (bs @ [nb])" "\<forall>b\<in>set bs. book_id b < book_id nb"
proof -
  show lt: "\<forall>b\<in>set bs. book_id b < book_id nb"
  proof
    fix b assume b: "b \<in> set bs"
    then have "bs \<noteq> []" by auto
    then show "book_id b < book_id nb"
      using ids_ascending_last[OF assms(1) b] assms(2) by simp
  qed
  then show "ids_ascending (bs @ [nb])"
    using assms(1) by (simp add: ids_ascending_def sorted_wrt_append)
qed

lemma ids_ascending_distinct: "ids_ascending bs \<Longrightarrow> distinct (map book_id bs)"
  by (simp add: ids_ascending_def strict_sorted_iff)

text \<open>
  C6. Strictly ascending identifiers are kept by every operation that changes the
  catalog. A successful add appends one record, whose identifier is the last record's
  plus one, or 1 in an empty catalog, and so exceeds every identifier there is; a
  successful delete takes one position out and leaves the rest in order; a successful
  toggle changes no identifier and no position. Identifiers therefore stay unique.
\<close>

theorem operations_keep_ids_ascending:
  "ids_ascending bs \<Longrightarrow>
   (add_book today bs t a y = Inr bs' \<longrightarrow>
      ids_ascending bs' \<and> distinct (map book_id bs') \<and>
      (\<exists>nb. bs' = bs @ [nb] \<and>
         book_id nb = (if bs = [] then 1 else book_id (last bs) + 1) \<and>
         (\<forall>b\<in>set bs. book_id b < book_id nb))) \<and>
   (delete_book bs k = Inr bs' \<longrightarrow>
      ids_ascending bs' \<and> distinct (map book_id bs') \<and>
      (\<exists>i<length bs. bs' = take i bs @ drop (Suc i) bs)) \<and>
   (change_book_status bs k = Inr bs' \<longrightarrow>
      ids_ascending bs' \<and> distinct (map book_id bs') \<and>
      map book_id bs' = map book_id bs)"
proof (intro conjI impI)
  assume a: "ids_ascending bs" and r: "add_book today bs t a y = Inr bs'"
  from add_book_result[OF r] obtain nb where nb: "bs' = bs @ [nb]"
    "book_id nb = (if bs \<noteq> [] then book_id (last bs) else 0) + 1" by blast
  show asc: "ids_ascending bs'" using ids_ascending_append(1)[OF a nb(2)] nb(1) by simp
  show "distinct (map book_id bs')" using asc by (rule ids_ascending_distinct)
  have "book_id nb = (if bs = [] then 1 else book_id (last bs) + 1)" using nb(2) by simp
  then show "\<exists>nb. bs' = bs @ [nb] \<and>
         book_id nb = (if bs = [] then 1 else book_id (last bs) + 1) \<and>
         (\<forall>b\<in>set bs. book_id b < book_id nb)"
    using nb ids_ascending_append(2)[OF a nb(2)] by blast
next
  assume a: "ids_ascending bs" and r: "delete_book bs k = Inr bs'"
  from delete_book_cases[of bs k] r obtain i where i: "i < length bs"
    "bs' = take i bs @ drop (Suc i) bs" by auto
  show asc: "ids_ascending bs'" using ids_ascending_remove[OF a, of i] i(2) by simp
  show "distinct (map book_id bs')" using asc by (rule ids_ascending_distinct)
  show "\<exists>i<length bs. bs' = take i bs @ drop (Suc i) bs" using i by blast
next
  assume a: "ids_ascending bs" and r: "change_book_status bs k = Inr bs'"
  from change_book_status_cases[of bs k] r obtain i s where
    "bs' = bs[i := (bs ! i)\<lparr>status := s\<rparr>]" by auto
  then show ids: "map book_id bs' = map book_id bs" by (simp add: ids_after_status_update)
  then show asc: "ids_ascending bs'" using a by (simp add: ids_ascending_def)
  show "distinct (map book_id bs')" using asc by (rule ids_ascending_distinct)
qed

theorem operations_keep_ids_ascending_witness:
  "ids_ascending example_catalog \<and>
   add_book 2024 example_catalog (asc ''iliad'') (asc ''homer'') (PInt 1599) =
     Inr (example_catalog @
       [\<lparr>book_id = 5, title = asc ''Iliad'', author = asc ''Homer'', year = 1599,
         status = AVAILABLE\<rparr>]) \<and>
   ids_ascending (example_catalog @
       [\<lparr>book_id = 5, title = asc ''Iliad'', author = asc ''Homer'', year = 1599,
         status = AVAILABLE\<rparr>]) \<and>
   delete_book example_catalog 2 = Inr [example_catalog ! 0, example_catalog ! 2] \<and>
   ids_ascending [example_catalog ! 0, example_catalog ! 2] \<and>
   (\<exists>bs'. change_book_status example_catalog 2 = Inr bs' \<and> ids_ascending bs')"
proof -
  note a = example_catalog_ascending
  let ?new = "example_catalog @
       [\<lparr>book_id = 5, title = asc ''Iliad'', author = asc ''Homer'', year = 1599,
         status = AVAILABLE\<rparr>]"
  have d2: "\<not> (\<exists>b\<in>set example_catalog. author b = asc ''Homer'' \<and> title b = asc ''Iliad'' \<and> year b = 1599)"
    by (simp add: example_catalog_def)
  have l: "example_catalog \<noteq> []" "book_id (last example_catalog) = 4"
    by (simp_all add: example_catalog_def)
  have add: "add_book 2024 example_catalog (asc ''iliad'') (asc ''homer'') (PInt 1599) = Inr ?new"
    using add_book_valid[OF title_iliad author_homer year_int[of 1599 2024], of example_catalog] d2 l
    by simp
  have f: "find_book_in_the_library example_catalog 2 True = Inr (int 1)"
    using a by (rule find_book_found) (simp_all add: example_catalog_def)
  have del: "delete_book example_catalog 2 = Inr [example_catalog ! 0, example_catalog ! 2]"
    using delete_book_at[OF f] by (simp add: example_catalog_def)
  obtain bs' where tog: "change_book_status example_catalog 2 = Inr bs'"
    using change_book_status_at[OF f] by blast
  have "ids_ascending ?new"
    using operations_keep_ids_ascending[OF a, of 2024 "asc ''iliad''" "asc ''homer''" "PInt 1599" ?new]
      add by simp
  moreover have "ids_ascending [example_catalog ! 0, example_catalog ! 2]"
    using operations_keep_ids_ascending[OF a, of _ _ _ _ "[example_catalog ! 0, example_catalog ! 2]" 2]
      del by simp
  moreover have "ids_ascending bs'"
    using operations_keep_ids_ascending[OF a, of _ _ _ _ bs' 2] tog by simp
  ultimately show ?thesis using a add del tog by blast
qed

end
